theory Spec2Isabelle
  imports Complex_Main "HOL-Library.AList"
begin

section \<open>Card-news pipeline: data model\<close>

text \<open>
  A JavaScript string is a sequence of UTF-16 code units. It is modelled as a
  \<^typ>\<open>string\<close>, one \<^typ>\<open>char\<close> per code unit, which covers the code units
  0 to 255. Every character the modelled code compares against is ASCII.
\<close>

subsection \<open>Errors\<close>

text \<open>
  \<open>throw new Error(msg)\<close> is \<open>Error msg\<close>. \<open>TypeError\<close> is the error the
  runtime raises when a property of \<open>null\<close> or \<open>undefined\<close> is read; its message is
  the engine's and is not modelled.
\<close>

datatype error = Error string | TypeError

subsection \<open>pipeline/types.ts\<close>

datatype IssueSeverity = High | Medium | Low

datatype Verdict = Pass | NeedsRevision

record QAIssue =
  slideNumber :: int
  severity :: IssueSeverity
  category :: string
  description :: string
  suggestion :: "string option"

record AutoCheckResult =
  rule :: string
  passed :: bool
  detail :: "string option"

record QAReport =
  passedAutoChecks :: bool
  autoCheckResults :: "AutoCheckResult list"
  issues :: "QAIssue list"
  overallVerdict :: Verdict

record PipelineOptions =
  topic :: string
  inputFile :: "string option"
  series :: string
  slideCount :: int
  outputDir :: string
  model :: "string option"

subsection \<open>pipeline/context.ts\<close>

text \<open>
  The four stage artifacts are objects whose fields the context never reads: they are
  type parameters. A slot that is \<open>null\<close> is \<open>None\<close>. The two slide maps are
  association lists from slide number to text.
\<close>

record ('research, 'plan, 'copy, 'brief) PipelineContext =
  options :: PipelineOptions
  research :: "'research option"
  plan :: "'plan option"
  copy :: "'copy option"
  designBrief :: "'brief option"
  htmlSlides :: "(int \<times> string) list"
  pngPaths :: "(int \<times> string) list"
  qaReport :: "QAReport option"
  qaIteration :: int
  rawResearchContent :: "string option"

definition new_PipelineContext ::
  "PipelineOptions \<Rightarrow> ('research, 'plan, 'copy, 'brief) PipelineContext" where
  "new_PipelineContext opts =
     \<lparr> options = opts, research = None, plan = None, copy = None, designBrief = None,
       htmlSlides = [], pngPaths = [], qaReport = None, qaIteration = 0,
       rawResearchContent = None \<rparr>"

definition requireResearch ::
  "('research, 'plan, 'copy, 'brief) PipelineContext \<Rightarrow> error + 'research" where
  "requireResearch ctx =
     (case research ctx of
        None \<Rightarrow> Inl (Error ''Research output not available. Run researcher first.'')
      | Some r \<Rightarrow> Inr r)"

definition requirePlan ::
  "('research, 'plan, 'copy, 'brief) PipelineContext \<Rightarrow> error + 'plan" where
  "requirePlan ctx =
     (case plan ctx of
        None \<Rightarrow> Inl (Error ''Plan output not available. Run contents-marketer first.'')
      | Some p \<Rightarrow> Inr p)"

definition requireCopy ::
  "('research, 'plan, 'copy, 'brief) PipelineContext \<Rightarrow> error + 'copy" where
  "requireCopy ctx =
     (case copy ctx of
        None \<Rightarrow> Inl (Error ''Copy output not available. Run contents-marketer first.'')
      | Some c \<Rightarrow> Inr c)"

definition requireDesignBrief ::
  "('research, 'plan, 'copy, 'brief) PipelineContext \<Rightarrow> error + 'brief" where
  "requireDesignBrief ctx =
     (case designBrief ctx of
        None \<Rightarrow> Inl (Error ''Design brief not available. Run designer first.'')
      | Some d \<Rightarrow> Inr d)"

definition hasBlockingIssues ::
  "('research, 'plan, 'copy, 'brief) PipelineContext \<Rightarrow> bool" where
  "hasBlockingIssues ctx =
     (case qaReport ctx of
        None \<Rightarrow> False
      | Some r \<Rightarrow> list_ex (\<lambda>i. severity i = High \<or> severity i = Medium) (issues r))"


section \<open>Strings and regular expressions of the runtime\<close>

subsection \<open>Character classes\<close>

text \<open>
  \<open>is_space\<close> is the white space of \<open>String.prototype.trim\<close> and of the regular
  expression class \<open>\s\<close>, among the code units 0 to 255: tab, line feed, vertical tab,
  form feed, carriage return, space and no-break space. \<open>is_digit\<close> is \<open>\d\<close>.
\<close>

definition is_space :: "char \<Rightarrow> bool" where
  "is_space c =
     (c \<in> set [CHR 0x09, CHR 0x0A, CHR 0x0B, CHR 0x0C, CHR 0x0D, CHR 0x20, CHR 0xA0])"

definition is_digit :: "char \<Rightarrow> bool" where
  "is_digit c = (c \<in> set ''0123456789'')"

text \<open>
  Under the flag \<open>i\<close> two code units match when their canonical forms are equal. Every
  pattern character of this program is ASCII, and the runtime never folds a code unit
  above 127 onto one below 128, so folding the letters a to z is all that is compared.
\<close>

definition canonicalize :: "char \<Rightarrow> char" where
  "canonicalize c =
     (if 97 \<le> (of_char c :: nat) \<and> (of_char c :: nat) \<le> 122
      then char_of ((of_char c :: nat) - 32) else c)"

subsection \<open>A backtracking matcher\<close>

text \<open>
  \<open>rmatch r s\<close> lists what is left of \<open>s\<close> after each way of matching \<open>r\<close> at its
  start, in the order in which the runtime's backtracking matcher tries them: the
  left alternative first, the longer repetition first. An iteration of a repetition
  that consumes nothing is not repeated, as in the runtime.
\<close>

datatype re = Eps | Atom "char \<Rightarrow> bool" | Seq re re | Alt re re | Star re

function rmatch :: "re \<Rightarrow> string \<Rightarrow> string list" where
  "rmatch Eps s = [s]"
| "rmatch (Atom p) s = (case s of [] \<Rightarrow> [] | c # cs \<Rightarrow> if p c then [cs] else [])"
| "rmatch (Seq a b) s = concat (map (rmatch b) (rmatch a s))"
| "rmatch (Alt a b) s = rmatch a s @ rmatch b s"
| "rmatch (Star a) s =
     concat (map (rmatch (Star a)) (filter (\<lambda>t. length t < length s) (rmatch a s))) @ [s]"
  by pat_completeness auto
termination
  by (relation "measures [\<lambda>(r, s). size r, \<lambda>(r, s). length s]") auto

declare rmatch.simps(5) [simp del]

definition Opt :: "re \<Rightarrow> re" where
  "Opt r = Alt r Eps"

definition Plus :: "re \<Rightarrow> re" where
  "Plus r = Seq r (Star r)"

fun seqs :: "re list \<Rightarrow> re" where
  "seqs [] = Eps"
| "seqs (r # rs) = Seq r (seqs rs)"

fun lit :: "string \<Rightarrow> re" where
  "lit [] = Eps"
| "lit (c # cs) = Seq (Atom (\<lambda>x. x = c)) (lit cs)"

fun lit_i :: "string \<Rightarrow> re" where
  "lit_i [] = Eps"
| "lit_i (c # cs) = Seq (Atom (\<lambda>x. canonicalize x = canonicalize c)) (lit_i cs)"

definition one_of :: "string \<Rightarrow> re" where
  "one_of cs = Atom (\<lambda>x. x \<in> set cs)"

definition none_of :: "string \<Rightarrow> re" where
  "none_of cs = Atom (\<lambda>x. x \<notin> set cs)"

text \<open>\<open>RegExp.prototype.test\<close> without the flag \<open>g\<close>: a match at some position.\<close>

definition regex_test :: "re \<Rightarrow> string \<Rightarrow> bool" where
  "regex_test r s = list_ex (\<lambda>i. rmatch r (drop i s) \<noteq> []) [0..<Suc (length s)]"

text \<open>
  A pattern \<open>pre(grp)post\<close> with one capturing group: each way of matching, as the
  captured text and what is left of the subject.
\<close>

definition rmatch_cap :: "re \<Rightarrow> re \<Rightarrow> re \<Rightarrow> string \<Rightarrow> (string \<times> string) list" where
  "rmatch_cap pre grp post s =
     concat (map (\<lambda>t1. concat (map (\<lambda>t2.
        map (\<lambda>t3. (take (length t1 - length t2) t1, t3)) (rmatch post t2)) (rmatch grp t1)))
       (rmatch pre s))"

text \<open>
  The successive matches of a pattern with the flag \<open>g\<close> (\<open>String.prototype.match\<close>,
  \<open>matchAll\<close>): the first match at or after the current position, then on from its
  end, one code unit further when the match was empty. \<open>m\<close> gives the ways of matching
  at the start of a string; what is left is a suffix of that string, so the match was
  non-empty exactly when it is shorter.
\<close>

function scan_matches :: "(string \<Rightarrow> ('a \<times> string) list) \<Rightarrow> string \<Rightarrow> 'a list" where
  "scan_matches m s =
     (case m s of
        (x, rest) # others \<Rightarrow>
          x # (if length rest < length s then scan_matches m rest
               else (case s of [] \<Rightarrow> [] | c # s' \<Rightarrow> scan_matches m s'))
      | [] \<Rightarrow> (case s of [] \<Rightarrow> [] | c # s' \<Rightarrow> scan_matches m s'))"
  by pat_completeness auto
termination
  by (relation "measure (\<lambda>(m, s). length s)") auto

declare scan_matches.simps [simp del]

definition match_g :: "re \<Rightarrow> string \<Rightarrow> string list" where
  "match_g r s =
     scan_matches (\<lambda>t. map (\<lambda>rest. (take (length t - length rest) t, rest)) (rmatch r t)) s"

text \<open>\<open>String.prototype.includes\<close>, \<open>trim\<close>, \<open>indexOf\<close> of one character, \<open>substring\<close>.\<close>

definition str_includes :: "string \<Rightarrow> string \<Rightarrow> bool" where
  "str_includes s sub = list_ex (\<lambda>i. take (length sub) (drop i s) = sub) [0..<Suc (length s)]"

definition trim :: "string \<Rightarrow> string" where
  "trim s = rev (dropWhile is_space (rev (dropWhile is_space s)))"

definition indexOf :: "string \<Rightarrow> char \<Rightarrow> int" where
  "indexOf s c = (if c \<in> set s then int (length (takeWhile (\<lambda>x. x \<noteq> c) s)) else - 1)"

definition substring :: "string \<Rightarrow> nat \<Rightarrow> nat \<Rightarrow> string" where
  "substring s a b = take (b - a) (drop a s)"

section \<open>agents/base-agent.ts: extractJson\<close>

text \<open>
  The outer code fence is the pattern
  \<^verbatim>\<open>^```(?:json)?\s*\n([\s\S]*)\n```\s*$\<close>; \<open>fenceMatch\<close> is its first match from the
  start of the text that ends at the end of the text, as the captured group.
\<close>

definition fence_pre :: re where
  "fence_pre = seqs [lit ''```'', Opt (lit ''json''), Star (Atom is_space),
                     Atom (\<lambda>c. c = CHR 0x0A)]"

definition fence_grp :: re where
  "fence_grp = Star (Atom (\<lambda>c. True))"

definition fence_post :: re where
  "fence_post = seqs [Atom (\<lambda>c. c = CHR 0x0A), lit ''```'', Star (Atom is_space)]"

definition fenceMatch :: "string \<Rightarrow> string option" where
  "fenceMatch s =
     (case filter (\<lambda>(cap, rest). rest = []) (rmatch_cap fence_pre fence_grp fence_post s) of
        [] \<Rightarrow> None
      | (cap, rest) # others \<Rightarrow> Some cap)"

text \<open>The text after trimming and after the outer fence, if any, is removed.\<close>

definition cleaned_text :: "string \<Rightarrow> string" where
  "cleaned_text text =
     (let cleaned = trim text in
      case fenceMatch cleaned of Some cap \<Rightarrow> trim cap | None \<Rightarrow> cleaned)"

text \<open>
  The forward walk from \<open>start\<close>: \<open>scan opn cls rest i depth inString isEscaped\<close> reads
  the characters \<open>rest\<close> from index \<open>i\<close> on and returns the index of the closing
  character at which the depth comes back to zero, or \<open>None\<close> when the text ends first.
  \<open>CHR 0x5C\<close> is the backslash, \<open>CHR 0x22\<close> the double quote.
\<close>

fun scan :: "char \<Rightarrow> char \<Rightarrow> string \<Rightarrow> nat \<Rightarrow> int \<Rightarrow> bool \<Rightarrow> bool \<Rightarrow> nat option" where
  "scan opn cls [] i depth inString isEscaped = None"
| "scan opn cls (ch # rest) i depth inString isEscaped =
     (if isEscaped then scan opn cls rest (i + 1) depth inString False
      else if ch = CHR 0x5C then
        scan opn cls rest (i + 1) depth inString (if inString then True else isEscaped)
      else if ch = CHR 0x22 then scan opn cls rest (i + 1) depth (\<not> inString) isEscaped
      else if \<not> inString then
        (if ch = opn then scan opn cls rest (i + 1) (depth + 1) inString isEscaped
         else if ch = cls then
           (if depth - 1 = 0 then Some i
            else scan opn cls rest (i + 1) (depth - 1) inString isEscaped)
         else scan opn cls rest (i + 1) depth inString isEscaped)
      else scan opn cls rest (i + 1) depth inString isEscaped)"

definition extractJson :: "string \<Rightarrow> string" where
  "extractJson text =
     (let cleaned = cleaned_text text;
          firstBrace = indexOf cleaned (CHR ''{'');
          firstBracket = indexOf cleaned (CHR ''['');
          (start, opn, cls) =
            (if firstBrace \<ge> 0 \<and> (firstBracket < 0 \<or> firstBrace < firstBracket)
             then (firstBrace, CHR ''{'', CHR ''}'')
             else if firstBracket \<ge> 0 then (firstBracket, CHR ''['', CHR '']'')
             else (- 1, CHR ''{'', CHR ''}''))
      in if start \<ge> 0
         then (case scan opn cls (drop (nat start) cleaned) (nat start) 0 False False of
                 Some i \<Rightarrow> substring cleaned (nat start) (i + 1)
               | None \<Rightarrow> cleaned)
         else cleaned)"


section \<open>agents/developer.ts: parseResponse\<close>

text \<open>
  The repair loop of \<open>parseResponse\<close>: \<open>repair rest inStr esc\<close> is what the loop
  appends to \<open>fixed\<close> while it reads the characters \<open>rest\<close>. \<open>CHR 0x0A\<close>, \<open>CHR 0x0D\<close> and
  \<open>CHR 0x09\<close> are the line feed, the carriage return and the tab.
\<close>

fun repair :: "string \<Rightarrow> bool \<Rightarrow> bool \<Rightarrow> string" where
  "repair [] inStr esc = []"
| "repair (ch # rest) inStr esc =
     (if esc then ch # repair rest inStr False
      else if ch = CHR 0x5C \<and> inStr then ch # repair rest inStr True
      else if ch = CHR 0x22 then ch # repair rest (\<not> inStr) esc
      else if inStr \<and> ch = CHR 0x0A then CHR 0x5C # CHR ''n'' # repair rest inStr esc
      else if inStr \<and> ch = CHR 0x0D then CHR 0x5C # CHR ''r'' # repair rest inStr esc
      else if inStr \<and> ch = CHR 0x09 then CHR 0x5C # CHR ''t'' # repair rest inStr esc
      else ch # repair rest inStr esc)"

definition fixed :: "string \<Rightarrow> string" where
  "fixed json = repair json False False"

text \<open>
  The values \<open>JSON.parse\<close> returns. A number is a double: only its being a number and
  its being zero or \<open>NaN\<close> are read here. An object is the list of its own properties.
\<close>

datatype number = Finite real | Infinity | NegInfinity | NaN

datatype json = JNull | JBool bool | JNum number | JStr string | JArr "json list"
  | JObj "(string \<times> json) list"

text \<open>
  \<open>JSON.parse\<close> and the conversion of a value to a string inside a template literal
  belong to the runtime: they are parameters. \<open>JSON_parse\<close> returns the message of the
  \<open>SyntaxError\<close> on the left when it throws. A property that is absent reads as
  \<open>undefined\<close>, which is \<open>None\<close>.
\<close>

record runtime =
  JSON_parse :: "string \<Rightarrow> string + json"
  String_of :: "json option \<Rightarrow> string"

text \<open>
  Reading a property of a parsed value, for the three names read here (\<open>slides\<close>,
  \<open>slideNumber\<close>, \<open>html\<close>), which no prototype defines: \<open>null\<close> throws, an object
  gives its own property, every other value gives \<open>undefined\<close>.
\<close>

fun get_prop :: "json \<Rightarrow> string \<Rightarrow> error + json option" where
  "get_prop JNull key = Inl TypeError"
| "get_prop (JObj kvs) key = Inr (map_of kvs key)"
| "get_prop v key = Inr None"

fun falsy :: "json option \<Rightarrow> bool" where
  "falsy None = True"
| "falsy (Some JNull) = True"
| "falsy (Some (JBool b)) = (\<not> b)"
| "falsy (Some (JNum n)) = (n = Finite 0 \<or> n = NaN)"
| "falsy (Some (JStr s)) = (s = [])"
| "falsy (Some (JArr xs)) = False"
| "falsy (Some (JObj kvs)) = False"

fun isArray :: "json option \<Rightarrow> bool" where
  "isArray (Some (JArr xs)) = True"
| "isArray v = False"

fun is_number :: "json option \<Rightarrow> bool" where
  "is_number (Some (JNum n)) = True"
| "is_number v = False"

fun is_string :: "json option \<Rightarrow> bool" where
  "is_string (Some (JStr s)) = True"
| "is_string v = False"

fun array_elements :: "json option \<Rightarrow> json list" where
  "array_elements (Some (JArr xs)) = xs"
| "array_elements v = []"

fun check_slides :: "runtime \<Rightarrow> json list \<Rightarrow> error option" where
  "check_slides rt [] = None"
| "check_slides rt (slide # rest) =
     (case get_prop slide ''slideNumber'' of
        Inl e \<Rightarrow> Some e
      | Inr n \<Rightarrow>
          if \<not> is_number n
          then Some (Error (''Invalid slide format for slide '' @ String_of rt n))
          else (case get_prop slide ''html'' of
                  Inl e \<Rightarrow> Some e
                | Inr h \<Rightarrow>
                    if \<not> is_string h
                    then Some (Error (''Invalid slide format for slide '' @ String_of rt n))
                    else check_slides rt rest))"

definition parse_with_repair :: "runtime \<Rightarrow> string \<Rightarrow> error + json" where
  "parse_with_repair rt json =
     (case JSON_parse rt json of
        Inr parsed \<Rightarrow> Inr parsed
      | Inl e1 \<Rightarrow>
          (case JSON_parse rt (fixed json) of
             Inr parsed \<Rightarrow> Inr parsed
           | Inl e2 \<Rightarrow>
               Inl (Error (''Failed to parse developer JSON: '' @ e2 @ [CHR 0x0A]
                      @ ''Extracted JSON preview:'' @ [CHR 0x0A] @ substring json 0 500))))"

definition parseResponse :: "runtime \<Rightarrow> string \<Rightarrow> error + json" where
  "parseResponse rt responseText =
     (let json = extractJson responseText in
      case parse_with_repair rt json of
        Inl e \<Rightarrow> Inl e
      | Inr parsed \<Rightarrow>
          (case get_prop parsed ''slides'' of
             Inl e \<Rightarrow> Inl e
           | Inr slides \<Rightarrow>
               if falsy slides \<or> \<not> isArray slides
               then Inl (Error ''Developer output missing slides array'')
               else (case check_slides rt (array_elements slides) of
                       Some e \<Rightarrow> Inl e
                     | None \<Rightarrow> Inr parsed)))"

text \<open>
  The required fields of the build payload, as the specification lists them: an array
  \<open>slides\<close>, and in each of its records a number \<open>slideNumber\<close> and a string \<open>html\<close>.
  \<open>decodes_to\<close> says that the first parse, or the parse after the repair pass when the
  first one failed, gave the value.
\<close>

fun slides_of :: "json \<Rightarrow> json list option" where
  "slides_of (JObj kvs) = (case map_of kvs ''slides'' of Some (JArr xs) \<Rightarrow> Some xs | _ \<Rightarrow> None)"
| "slides_of v = None"

fun slide_complete :: "json \<Rightarrow> bool" where
  "slide_complete (JObj kvs) =
     (case map_of kvs ''slideNumber'' of
        Some (JNum n) \<Rightarrow> (case map_of kvs ''html'' of Some (JStr h) \<Rightarrow> True | _ \<Rightarrow> False)
      | _ \<Rightarrow> False)"
| "slide_complete v = False"

definition complete_payload :: "json \<Rightarrow> bool" where
  "complete_payload v =
     (case slides_of v of None \<Rightarrow> False | Some xs \<Rightarrow> list_all slide_complete xs)"

definition decodes_to :: "runtime \<Rightarrow> string \<Rightarrow> json \<Rightarrow> bool" where
  "decodes_to rt json v =
     (JSON_parse rt json = Inr v
      \<or> (isl (JSON_parse rt json) \<and> JSON_parse rt (fixed json) = Inr v))"

section \<open>validation/slide-validator.ts\<close>

text \<open>
  Numbers as the runtime prints them in a template literal, for the natural numbers and
  integers printed here; \<open>Array.prototype.join\<close>; \<open>parseInt\<close> in base 10 on a text
  that starts with its digits (the texts parsed here are made of digits only).
\<close>

function show_nat :: "nat \<Rightarrow> string" where
  "show_nat n =
     (if n < 10 then [char_of (48 + n)]
      else show_nat (n div 10) @ [char_of (48 + n mod 10)])"
  by pat_completeness auto
termination
  by (relation "measure id") auto

declare show_nat.simps [simp del]

definition show_int :: "int \<Rightarrow> string" where
  "show_int i = (if i < 0 then ''-'' @ show_nat (nat (- i)) else show_nat (nat i))"

fun join :: "string \<Rightarrow> string list \<Rightarrow> string" where
  "join sep [] = []"
| "join sep [x] = x"
| "join sep (x # y # ys) = x @ sep @ join sep (y # ys)"

definition parseInt10 :: "string \<Rightarrow> nat option" where
  "parseInt10 s =
     (let ds = takeWhile is_digit s in
      if ds = [] then None
      else Some (foldl (\<lambda>a d. 10 * a + ((of_char d :: nat) - 48)) 0 ds))"

text \<open>What the logger is asked to print, in order.\<close>

datatype log_entry = Debug string | Info string | Success string | Warn string
  | Step string | Group string | GroupEnd | Divider | Banner string

text \<open>
  The entries of \<open>results\<close> and the value \<open>validateAllSlides\<close> returns are anonymous
  object types in the source; they are named \<open>RuleResult\<close> and \<open>ValidationSummary\<close>.
\<close>

record ValidationResult =
  passed :: bool
  detail :: "string option"

record ValidationRule =
  rule_id :: string
  rule_description :: string
  rule_severity :: IssueSeverity
  check :: "string \<Rightarrow> int \<Rightarrow> ValidationResult"

record RuleResult =
  rule :: string
  result_severity :: IssueSeverity
  result_passed :: bool
  result_detail :: "string option"

record SlideValidationReport =
  report_slideNumber :: int
  results :: "RuleResult list"

record ValidationSummary =
  reports :: "SlideValidationReport list"
  allPassed :: bool
  highCount :: nat
  mediumCount :: nat
  lowCount :: nat

subsection \<open>The patterns of the rules\<close>

text \<open>\<open>ws\<close> is \<open>\s*\<close>; \<open>quote\<close> is the class of the two quote characters.\<close>

definition ws :: re where "ws = Star (Atom is_space)"

definition quote :: re where "quote = one_of [CHR 0x22, CHR 0x27]"

definition overflow_hidden_re :: re where
  "overflow_hidden_re = seqs [lit ''overflow'', ws, lit '':'', ws, lit ''hidden'']"

definition overflow_y_re :: re where
  "overflow_y_re = seqs [lit_i ''overflow-y'', ws, lit_i '':'', ws,
                         Alt (lit_i ''scroll'') (lit_i ''auto'')]"

definition min_height_re :: re where
  "min_height_re = seqs [lit_i ''min-height'', ws, lit_i '':'', ws, Plus (Atom is_digit),
                         lit_i ''px'']"

definition bullet_re :: re where
  "bullet_re = seqs [lit_i ''class'', ws, lit_i ''='', ws, lit_i [CHR 0x22],
                     Star (none_of [CHR 0x22]), lit_i ''bullet'', Star (none_of [CHR 0x22]),
                     lit_i [CHR 0x22]]"

definition word_break_re :: re where
  "word_break_re = seqs [lit ''word-break'', ws, lit '':'', ws, lit ''keep-all'']"

definition urlPattern :: re where
  "urlPattern = seqs [Alt (lit_i ''src'') (Alt (lit_i ''href'') (lit_i ''url'')), ws,
                      one_of ''=('', ws, Opt (one_of [CHR 0x27, CHR 0x22]),
                      lit_i ''http'', Opt (lit_i ''s''), lit_i ''://'']"

definition font_size_pre :: re where
  "font_size_pre = seqs [lit_i ''font-size'', ws, lit_i '':'', ws]"

definition accent_class_re :: re where
  "accent_class_re = seqs [lit_i ''class'', ws, lit_i ''='', ws, quote,
                           Star (none_of [CHR 0x22, CHR 0x27]), lit_i ''accent'',
                           Star (none_of [CHR 0x22, CHR 0x27]), quote]"

definition inline_accent_re :: re where
  "inline_accent_re = seqs [lit_i ''<span'', Star (none_of ''>''), lit_i ''class'', ws,
                            lit_i ''='', ws, quote, lit_i ''accent'', quote,
                            Star (none_of ''>''), lit_i ''>'']"

definition strong_re :: re where
  "strong_re = lit_i ''<strong''"

definition doctype_re :: re where
  "doctype_re = seqs [lit_i ''<!DOCTYPE'', Plus (Atom is_space), lit_i ''html>'']"

definition lang_re :: re where
  "lang_re = seqs [lit_i ''lang'', ws, lit_i ''='', ws, quote, lit_i ''ko'', quote]"

subsection \<open>The rules\<close>

text \<open>
  \<open>m.replace(/\D+/g, "")\<close> keeps the digits of \<open>m\<close>. A comparison with \<open>NaN\<close> is false.
  The captured group of the font-size pattern is its run of digits.
\<close>

definition check_canvas_size :: "string \<Rightarrow> int \<Rightarrow> ValidationResult" where
  "check_canvas_size html slideNo =
     (let has1080 = (str_includes html ''1080'' \<and> str_includes html ''1440'') in
      \<lparr> passed = has1080,
        detail = (if has1080 then None else Some ''Missing 1080x1440 canvas dimensions'') \<rparr>)"

definition check_overflow_hidden :: "string \<Rightarrow> int \<Rightarrow> ValidationResult" where
  "check_overflow_hidden html slideNo =
     (let hasOverflow = regex_test overflow_hidden_re html in
      \<lparr> passed = hasOverflow,
        detail = (if hasOverflow then None else Some ''Missing overflow:hidden'') \<rparr>)"

definition check_no_vertical_overflow :: "string \<Rightarrow> int \<Rightarrow> ValidationResult" where
  "check_no_vertical_overflow html slideNo =
     (let hasOverflowY = regex_test overflow_y_re html;
          tallBlocks = match_g min_height_re html;
          tall = list_ex (\<lambda>m. case parseInt10 (filter is_digit m) of
                                  None \<Rightarrow> False | Some val \<Rightarrow> val \<ge> 360) tallBlocks;
          manyBullets = (length (match_g bullet_re html) \<ge> 6);
          risk = (hasOverflowY \<or> (tall \<and> manyBullets)) in
      \<lparr> passed = \<not> risk,
        detail = (if risk
          then Some ''Potential vertical overflow: reduce block heights/padding or bullet count''
          else None) \<rparr>)"

definition check_word_break :: "string \<Rightarrow> int \<Rightarrow> ValidationResult" where
  "check_word_break html slideNo =
     (let hasKeepAll = regex_test word_break_re html in
      \<lparr> passed = hasKeepAll,
        detail = (if hasKeepAll then None else Some ''Missing word-break:keep-all'') \<rparr>)"

definition check_no_external_urls :: "string \<Rightarrow> int \<Rightarrow> ValidationResult" where
  "check_no_external_urls html slideNo =
     (let matches = match_g urlPattern html;
          hasExternal = (matches \<noteq> [] \<and> length matches > 0) in
      \<lparr> passed = \<not> hasExternal,
        detail = (if hasExternal
          then Some (''Found external URL references: '' @ join '', '' (take 3 matches))
          else None) \<rparr>)"

definition check_min_font_size :: "string \<Rightarrow> int \<Rightarrow> ValidationResult" where
  "check_min_font_size html slideNo =
     (let fontSizes = scan_matches (rmatch_cap font_size_pre (Plus (Atom is_digit))
                                      (lit_i ''px'')) html;
          smallFonts = concat (map (\<lambda>m. case parseInt10 m of
                                  None \<Rightarrow> [] | Some sz \<Rightarrow> if sz < 28 then [sz] else [])
                                fontSizes) in
      \<lparr> passed = (length smallFonts = 0),
        detail = (if length smallFonts > 0
          then Some (''Found font sizes below 28px: '' @ join '', '' (map show_nat smallFonts)
                     @ ''px'')
          else None) \<rparr>)"

definition check_bottom_bar :: "string \<Rightarrow> int \<Rightarrow> ValidationResult" where
  "check_bottom_bar html slideNo =
     (let hasBar = str_includes html ''bottom-bar'' in
      \<lparr> passed = hasBar,
        detail = (if hasBar then None else Some ''Missing .bottom-bar element'') \<rparr>)"

definition check_accent_limit :: "string \<Rightarrow> int \<Rightarrow> ValidationResult" where
  "check_accent_limit html slideNo =
     (let accentCount = length (match_g accent_class_re html);
          inlineAccent = length (match_g inline_accent_re html);
          total = max accentCount inlineAccent in
      \<lparr> passed = (total \<le> 2),
        detail = (if total > 2
          then Some (''Found '' @ show_nat total @ '' accent elements (max 2)'')
          else None) \<rparr>)"

definition check_strong_limit :: "string \<Rightarrow> int \<Rightarrow> ValidationResult" where
  "check_strong_limit html slideNo =
     (let strongCount = length (match_g strong_re html) in
      \<lparr> passed = (strongCount \<le> 1),
        detail = (if strongCount > 1
          then Some (''Found '' @ show_nat strongCount @ '' <strong> elements (max 1)'')
          else None) \<rparr>)"

definition check_has_doctype :: "string \<Rightarrow> int \<Rightarrow> ValidationResult" where
  "check_has_doctype html slideNo =
     (let hasDoctype = regex_test doctype_re html in
      \<lparr> passed = hasDoctype,
        detail = (if hasDoctype then None else Some ''Missing <!DOCTYPE html>'') \<rparr>)"

definition check_lang_ko :: "string \<Rightarrow> int \<Rightarrow> ValidationResult" where
  "check_lang_ko html slideNo =
     (let hasLang = regex_test lang_re html in
      \<lparr> passed = hasLang,
        detail = (if hasLang then None else Some (''Missing lang='' @ [CHR 0x27] @ ''ko''
                    @ [CHR 0x27] @ '' attribute'')) \<rparr>)"

definition RULES :: "ValidationRule list" where
  "RULES =
     [\<lparr> rule_id = ''canvas-size'', rule_description = ''Canvas must be 1080x1440px'',
        rule_severity = High, check = check_canvas_size \<rparr>,
      \<lparr> rule_id = ''overflow-hidden'', rule_description = ''overflow:hidden must be present'',
        rule_severity = High, check = check_overflow_hidden \<rparr>,
      \<lparr> rule_id = ''no-vertical-overflow'',
        rule_description = ''Content must fit within the 1080x1440 canvas (no overflow)'',
        rule_severity = High, check = check_no_vertical_overflow \<rparr>,
      \<lparr> rule_id = ''word-break-keep-all'',
        rule_description = ''word-break:keep-all must be present for Korean text'',
        rule_severity = High, check = check_word_break \<rparr>,
      \<lparr> rule_id = ''no-external-urls'',
        rule_description = ''No external URLs (CDN, http/https links)'',
        rule_severity = High, check = check_no_external_urls \<rparr>,
      \<lparr> rule_id = ''min-font-size'', rule_description = ''No font size below 28px'',
        rule_severity = High, check = check_min_font_size \<rparr>,
      \<lparr> rule_id = ''bottom-bar'', rule_description = ''Slide must have a .bottom-bar element'',
        rule_severity = Medium, check = check_bottom_bar \<rparr>,
      \<lparr> rule_id = ''accent-limit'', rule_description = ''Max 2 accent elements per slide'',
        rule_severity = Medium, check = check_accent_limit \<rparr>,
      \<lparr> rule_id = ''strong-limit'', rule_description = ''Max 1 <strong> per slide'',
        rule_severity = Medium, check = check_strong_limit \<rparr>,
      \<lparr> rule_id = ''has-doctype'', rule_description = ''HTML must have DOCTYPE declaration'',
        rule_severity = Medium, check = check_has_doctype \<rparr>,
      \<lparr> rule_id = ''lang-ko'',
        rule_description = ''HTML must have lang='' @ [CHR 0x27] @ ''ko'' @ [CHR 0x27]
                           @ '' for Korean content'',
        rule_severity = Low, check = check_lang_ko \<rparr>]"

subsection \<open>validateSlide and validateAllSlides\<close>

definition validateSlide :: "string \<Rightarrow> int \<Rightarrow> SlideValidationReport" where
  "validateSlide html slideNo =
     \<lparr> report_slideNumber = slideNo,
       results = map (\<lambda>r. let result = check r html slideNo in
                        \<lparr> rule = rule_id r, result_severity = rule_severity r,
                          result_passed = passed result, result_detail = detail result \<rparr>)
                     RULES \<rparr>"

fun count_results :: "RuleResult list \<Rightarrow> nat \<times> nat \<times> nat \<Rightarrow> nat \<times> nat \<times> nat" where
  "count_results [] counts = counts"
| "count_results (r # rs) (high, medium, low) =
     count_results rs
       (if \<not> result_passed r then
          (if result_severity r = High then (high + 1, medium, low)
           else if result_severity r = Medium then (high, medium + 1, low)
           else (high, medium, low + 1))
        else (high, medium, low))"

text \<open>
  The keys of the slide map in ascending order. A slide whose text is empty is skipped,
  as is a key with no text.
\<close>

definition sortedKeys :: "(int \<times> string) list \<Rightarrow> int list" where
  "sortedKeys slides = sort (remdups (map fst slides))"

fun validate_keys ::
  "(int \<times> string) list \<Rightarrow> int list
   \<Rightarrow> SlideValidationReport list \<times> nat \<times> nat \<times> nat
   \<Rightarrow> SlideValidationReport list \<times> nat \<times> nat \<times> nat" where
  "validate_keys slides [] acc = acc"
| "validate_keys slides (num # nums) (reps, counts) =
     (case map_of slides num of
        None \<Rightarrow> validate_keys slides nums (reps, counts)
      | Some html \<Rightarrow>
          if html = [] then validate_keys slides nums (reps, counts)
          else (let report = validateSlide html num in
                validate_keys slides nums
                  (reps @ [report], count_results (results report) counts)))"

definition severity_name :: "IssueSeverity \<Rightarrow> string" where
  "severity_name s = (case s of High \<Rightarrow> ''high'' | Medium \<Rightarrow> ''medium'' | Low \<Rightarrow> ''low'')"

definition report_log :: "SlideValidationReport \<Rightarrow> log_entry list" where
  "report_log report =
     (let failures = filter (\<lambda>r. \<not> result_passed r) (results report) in
      if length failures = 0
      then [Success (''Slide '' @ show_int (report_slideNumber report) @ '': All checks passed'')]
      else Warn (''Slide '' @ show_int (report_slideNumber report) @ '': ''
                 @ show_nat (length failures) @ '' issue(s)'')
           # map (\<lambda>f. let icon = (if result_severity f = High then ''!!!''
                                    else if result_severity f = Medium then '' !!'' else ''  !'')
                        in Info (''  '' @ icon @ '' ['' @ severity_name (result_severity f) @ ''] ''
                                 @ rule f @ '': ''
                                 @ (case result_detail f of None \<Rightarrow> '''' | Some d \<Rightarrow> d)))
                 failures)"

definition validateAllSlides :: "(int \<times> string) list \<Rightarrow> ValidationSummary \<times> log_entry list" where
  "validateAllSlides slides =
     (let (reps, high, medium, low) =
            validate_keys slides (sortedKeys slides) ([], 0, 0, 0);
          passed_all = (high = 0 \<and> medium = 0) in
      (\<lparr> reports = reps, allPassed = passed_all, highCount = high,
         mediumCount = medium, lowCount = low \<rparr>,
       [Group ''Slide Validation Results'']
       @ concat (map report_log reps)
       @ [Divider,
          Info (''Total: '' @ show_nat high @ '' high, '' @ show_nat medium
                @ '' medium, '' @ show_nat low @ '' low''),
          (if passed_all then Success ''All critical checks passed.''
           else Warn ''Slides need revision.''),
          GroupEnd]))"

text \<open>The number of failed findings of one severity in a list of findings.\<close>

definition failed_with :: "IssueSeverity \<Rightarrow> RuleResult list \<Rightarrow> nat" where
  "failed_with sev rs = length (filter (\<lambda>x. \<not> result_passed x \<and> result_severity x = sev) rs)"

section \<open>What a pattern denotes\<close>

text \<open>
  The words a pattern matches, independently of the order in which a matcher looks
  for them.
\<close>

inductive matches :: "re \<Rightarrow> string \<Rightarrow> bool" where
  m_Eps: "matches Eps []"
| m_Atom: "p c \<Longrightarrow> matches (Atom p) [c]"
| m_Seq: "matches a u \<Longrightarrow> matches b v \<Longrightarrow> matches (Seq a b) (u @ v)"
| m_AltL: "matches a u \<Longrightarrow> matches (Alt a b) u"
| m_AltR: "matches b u \<Longrightarrow> matches (Alt a b) u"
| m_StarNil: "matches (Star a) []"
| m_StarStep: "matches a u \<Longrightarrow> matches (Star a) v \<Longrightarrow> matches (Star a) (u @ v)"

text \<open>
  An external reference as the pattern of the rule \<open>no-external-urls\<close> describes it:
  one of \<open>src\<close>, \<open>href\<close>, \<open>url\<close> in any letter case, white space or none, an equals
  sign or an opening parenthesis, white space or none, at most one quote character, and
  \<open>http://\<close> or \<open>https://\<close> in any letter case.
\<close>

definition eq_ignore_case :: "string \<Rightarrow> string \<Rightarrow> bool" where
  "eq_ignore_case a b = (map canonicalize a = map canonicalize b)"

definition external_reference :: "string \<Rightarrow> bool" where
  "external_reference w =
     (\<exists>kw s1 sep s2 q scheme.
        w = kw @ s1 @ [sep] @ s2 @ q @ scheme
        \<and> (eq_ignore_case kw ''src'' \<or> eq_ignore_case kw ''href'' \<or> eq_ignore_case kw ''url'')
        \<and> list_all is_space s1
        \<and> (sep = CHR ''='' \<or> sep = CHR ''('')
        \<and> list_all is_space s2
        \<and> (q = [] \<or> q = [CHR 0x27] \<or> q = [CHR 0x22])
        \<and> (eq_ignore_case scheme ''http://'' \<or> eq_ignore_case scheme ''https://''))"

text \<open>
  The reference positions as the claim words them: \<open>src=\<close>, \<open>href=\<close> or \<open>url(\<close>, an
  optional quote, and the scheme.
\<close>

definition claimed_references :: "string list" where
  "claimed_references =
     concat (map (\<lambda>kw. concat (map (\<lambda>q. map (\<lambda>scheme. kw @ q @ scheme)
                                               [''http://'', ''https://''])
                                     [[], [CHR 0x27], [CHR 0x22]]))
                 [''src='', ''href='', ''url(''])"

definition has_claimed_reference :: "string \<Rightarrow> bool" where
  "has_claimed_reference html =
     list_ex (\<lambda>i. list_ex (\<lambda>p. take (length p) (drop i html) = p) claimed_references)
       [0..<Suc (length html)]"


section \<open>pipeline/orchestrator.ts: the QA review loop of runPipeline\<close>

text \<open>
  The stages before the review loop are calls in sequence with no loop; the model starts
  where the loop starts, with the context, the token totals and the log they leave.

  The agents, the file system and the renderer are collaborators. Each is a function of
  the state of the world that returns its answer, or the error it throws, with the new
  state of the world: nothing is assumed about what they answer. \<open>toLocaleString\<close> is
  the runtime's. The result of the developer agent is typed as the source types it,
  with whole slide numbers.
\<close>

record TokenUsage =
  input_tokens :: int
  output_tokens :: int

record 'a AgentResult =
  agent_output :: 'a
  tokensUsed :: TokenUsage
  model_used :: string

record DeveloperSlide =
  dev_slideNumber :: int
  dev_html :: string

record DeveloperOutput =
  dev_slides :: "DeveloperSlide list"

type_synonym ('w, 'a) io = "'w \<Rightarrow> (error + 'a) \<times> 'w"

record ('w, 'research, 'plan, 'copy, 'brief) collaborators =
  qaReviewer_run :: "('research, 'plan, 'copy, 'brief) PipelineContext \<Rightarrow> string option
                     \<Rightarrow> ('w, QAReport AgentResult) io"
  developer_run :: "('research, 'plan, 'copy, 'brief) PipelineContext \<Rightarrow> string option
                    \<Rightarrow> ('w, DeveloperOutput AgentResult) io"
  buildSlideHtml :: "string \<Rightarrow> string \<Rightarrow> ('w, string) io"
  writeOutputFile :: "string \<Rightarrow> string \<Rightarrow> ('w, unit) io"
  writeJsonFile :: "string \<Rightarrow> QAReport \<Rightarrow> ('w, unit) io"
  renderAllSlides :: "(int \<times> string) list \<Rightarrow> string \<Rightarrow> ('w, (int \<times> string) list) io"
  closeBrowser :: "('w, unit) io"
  toLocaleString :: "int \<Rightarrow> string"

text \<open>
  \<open>calls\<close> records, in order, the calls made to the reviewer, to the developer and to
  the renderer: it is an observation of the run, not a variable of the program.
\<close>

datatype call = ReviewCall | DeveloperCall | RenderCall

record ('research, 'plan, 'copy, 'brief) run_state =
  ctx :: "('research, 'plan, 'copy, 'brief) PipelineContext"
  totalTokens :: TokenUsage
  logged :: "log_entry list"
  calls :: "call list"

definition say ::
  "log_entry list \<Rightarrow> ('research, 'plan, 'copy, 'brief) run_state
   \<Rightarrow> ('research, 'plan, 'copy, 'brief) run_state" where
  "say entries st = st\<lparr>logged := logged st @ entries\<rparr>"

definition called ::
  "call \<Rightarrow> ('research, 'plan, 'copy, 'brief) run_state
   \<Rightarrow> ('research, 'plan, 'copy, 'brief) run_state" where
  "called c st = st\<lparr>calls := calls st @ [c]\<rparr>"

definition add_tokens ::
  "TokenUsage \<Rightarrow> ('research, 'plan, 'copy, 'brief) run_state
   \<Rightarrow> ('research, 'plan, 'copy, 'brief) run_state" where
  "add_tokens used st =
     st\<lparr>totalTokens := \<lparr> input_tokens = input_tokens (totalTokens st) + input_tokens used,
                          output_tokens = output_tokens (totalTokens st) + output_tokens used \<rparr>\<rparr>"

text \<open>\<open>padStart(2, "0")\<close>; the directory of the slides is \<open>outputDir/slides\<close>.\<close>

definition padStart2 :: "string \<Rightarrow> string" where
  "padStart2 s = replicate (2 - length s) (CHR ''0'') @ s"

definition slidesDir_of :: "('research, 'plan, 'copy, 'brief) run_state \<Rightarrow> string" where
  "slidesDir_of st = outputDir (options (ctx st)) @ ''/slides''"

text \<open>
  The loop over the slides of a developer result: build the document, store it in the
  slide map, write it to disk. \<open>Map.prototype.set\<close> is \<open>AList.update\<close>.
\<close>

fun store_slides ::
  "('w, 'research, 'plan, 'copy, 'brief) collaborators \<Rightarrow> DeveloperSlide list
   \<Rightarrow> ('research, 'plan, 'copy, 'brief) run_state \<Rightarrow> 'w
   \<Rightarrow> (error option \<times> ('research, 'plan, 'copy, 'brief) run_state) \<times> 'w" where
  "store_slides env [] st w = ((None, st), w)"
| "store_slides env (slide # rest) st w =
     (case buildSlideHtml env (dev_html slide) (series (options (ctx st))) w of
        (Inl e, w1) \<Rightarrow> ((Some e, st), w1)
      | (Inr built, w1) \<Rightarrow>
          (let st1 = st\<lparr>ctx := (ctx st)\<lparr>htmlSlides :=
                        AList.update (dev_slideNumber slide) built (htmlSlides (ctx st))\<rparr>\<rparr>;
               padded = padStart2 (show_int (dev_slideNumber slide))
           in case writeOutputFile env (slidesDir_of st1 @ ''/slide-'' @ padded @ ''.html'')
                     built w1 of
                (Inl e, w2) \<Rightarrow> ((Some e, st1), w2)
              | (Inr u, w2) \<Rightarrow> store_slides env rest st1 w2))"

text \<open>
  One iteration of the loop, in three parts. \<open>review_step\<close> is the start of the body:
  the reviewer is called and its report recorded and written. \<open>fix_step\<close> is the
  developer fix pass. \<open>qa_iteration\<close> is the whole body; it ends by \<open>break\<close>, by
  reaching its end, or by an error thrown. The long dash of the message
  \<open>QA passed\<close> is outside the code units modelled and is written as a hyphen.
\<close>

definition review_step ::
  "('w, 'research, 'plan, 'copy, 'brief) collaborators \<Rightarrow> int \<Rightarrow> int
   \<Rightarrow> ('research, 'plan, 'copy, 'brief) run_state \<Rightarrow> 'w
   \<Rightarrow> (error option \<times> ('research, 'plan, 'copy, 'brief) run_state) \<times> 'w" where
  "review_step env maxQaLoops qaLoops st w =
     (let st1 = say [Info (''QA iteration '' @ show_int qaLoops @ ''/'' @ show_int maxQaLoops)]
                  (st\<lparr>ctx := (ctx st)\<lparr>qaIteration := qaLoops\<rparr>\<rparr>)
      in case qaReviewer_run env (ctx st1) (model (options (ctx st1))) w of
           (Inl e, w1) \<Rightarrow> ((Some e, called ReviewCall st1), w1)
         | (Inr qaResult, w1) \<Rightarrow>
             (let st2 = add_tokens (tokensUsed qaResult)
                          ((called ReviewCall st1)
                             \<lparr>ctx := (ctx st1)\<lparr>qaReport := Some (agent_output qaResult)\<rparr>\<rparr>)
              in case writeJsonFile env (outputDir (options (ctx st2)) @ ''/qa-report.json'')
                        (agent_output qaResult) w1 of
                   (Inl e, w2) \<Rightarrow> ((Some e, st2), w2)
                 | (Inr u, w2) \<Rightarrow> ((None, st2), w2)))"

definition fix_step ::
  "('w, 'research, 'plan, 'copy, 'brief) collaborators
   \<Rightarrow> ('research, 'plan, 'copy, 'brief) run_state \<Rightarrow> 'w
   \<Rightarrow> (error option \<times> ('research, 'plan, 'copy, 'brief) run_state) \<times> 'w" where
  "fix_step env st w =
     (let st1 = say [Step ''Developer fix pass''] st
      in case developer_run env (ctx st1) (model (options (ctx st1))) w of
           (Inl e, w1) \<Rightarrow> ((Some e, called DeveloperCall st1), w1)
         | (Inr fixResult, w1) \<Rightarrow>
             (case store_slides env (dev_slides (agent_output fixResult))
                     (add_tokens (tokensUsed fixResult) (called DeveloperCall st1)) w1 of
                ((Some e, st2), w2) \<Rightarrow> ((Some e, st2), w2)
              | ((None, st2), w2) \<Rightarrow> ((None, say [Success ''Fixes applied''] st2), w2)))"

datatype 's ctl = Thrown error 's | Break 's | Continue 's

definition qa_iteration ::
  "('w, 'research, 'plan, 'copy, 'brief) collaborators \<Rightarrow> int \<Rightarrow> int
   \<Rightarrow> ('research, 'plan, 'copy, 'brief) run_state \<Rightarrow> 'w
   \<Rightarrow> ('research, 'plan, 'copy, 'brief) run_state ctl \<times> 'w" where
  "qa_iteration env maxQaLoops qaLoops st w =
     (case review_step env maxQaLoops qaLoops st w of
        ((Some e, st2), w2) \<Rightarrow> (Thrown e st2, w2)
      | ((None, st2), w2) \<Rightarrow>
          (case qaReport (ctx st2) of
             None \<Rightarrow> (Thrown TypeError st2, w2)
           | Some report \<Rightarrow>
               if overallVerdict report = Pass \<or> \<not> hasBlockingIssues (ctx st2)
               then (Break (say [Success ''QA passed - no blocking issues.''] st2), w2)
               else
                 (let highCount = length (filter (\<lambda>i. severity i = High) (issues report));
                      medCount = length (filter (\<lambda>i. severity i = Medium) (issues report));
                      st3 = say [Warn (''QA found '' @ show_nat highCount @ '' high, ''
                                       @ show_nat medCount @ '' medium issues. ''
                                       @ (if qaLoops < maxQaLoops then ''Requesting fixes...''
                                          else ''Max iterations reached.''))] st2
                  in if qaLoops < maxQaLoops
                     then (case fix_step env st3 w2 of
                             ((Some e, st4), w3) \<Rightarrow> (Thrown e st4, w3)
                           | ((None, st4), w3) \<Rightarrow> (Continue st4, w3))
                     else (Continue st3, w2))))"

text \<open>The \<open>while\<close> loop: \<open>qaLoops\<close> counts the iterations started.\<close>

function qa_loop ::
  "('w, 'research, 'plan, 'copy, 'brief) collaborators \<Rightarrow> int \<Rightarrow> int
   \<Rightarrow> ('research, 'plan, 'copy, 'brief) run_state \<Rightarrow> 'w
   \<Rightarrow> (error option \<times> int \<times> ('research, 'plan, 'copy, 'brief) run_state) \<times> 'w" where
  "qa_loop env maxQaLoops qaLoops st w =
     (if qaLoops < maxQaLoops
      then (case qa_iteration env maxQaLoops (qaLoops + 1) st w of
              (Thrown e st', w') \<Rightarrow> ((Some e, qaLoops + 1, st'), w')
            | (Break st', w') \<Rightarrow> ((None, qaLoops + 1, st'), w')
            | (Continue st', w') \<Rightarrow> qa_loop env maxQaLoops (qaLoops + 1) st' w')
      else ((None, qaLoops, st), w))"
  by pat_completeness auto
termination
  by (relation "measure (\<lambda>(env, maxQaLoops, qaLoops, st, w). nat (maxQaLoops - qaLoops))") auto

declare qa_loop.simps [simp del]

text \<open>
  The \<open>catch\<close> block closes the browser and throws the error again. After the loop the
  slides are rendered and the summary is printed.
\<close>

definition rethrow ::
  "('w, 'research, 'plan, 'copy, 'brief) collaborators \<Rightarrow> error
   \<Rightarrow> ('research, 'plan, 'copy, 'brief) run_state \<Rightarrow> 'w
   \<Rightarrow> (error option \<times> ('research, 'plan, 'copy, 'brief) run_state) \<times> 'w" where
  "rethrow env err st w =
     (case closeBrowser env w of
        (Inl e, w') \<Rightarrow> ((Some e, st), w')
      | (Inr u, w') \<Rightarrow> ((Some err, st), w'))"

definition runPipeline_stage6 ::
  "('w, 'research, 'plan, 'copy, 'brief) collaborators \<Rightarrow> int
   \<Rightarrow> ('research, 'plan, 'copy, 'brief) run_state \<Rightarrow> 'w
   \<Rightarrow> (error option \<times> ('research, 'plan, 'copy, 'brief) run_state) \<times> 'w" where
  "runPipeline_stage6 env maxQaLoops st w =
     (case qa_loop env maxQaLoops 0 (say [Step ''Stage 6/6: QA Review''] st) w of
        ((Some e, qaLoops, st1), w1) \<Rightarrow> rethrow env e st1 w1
      | ((None, qaLoops, st1), w1) \<Rightarrow>
          (let st2 = say [Step ''Rendering PNGs''] st1
           in case renderAllSlides env (htmlSlides (ctx st2)) (slidesDir_of st2) w1 of
                (Inl e, w2) \<Rightarrow> rethrow env e (called RenderCall st2) w2
              | (Inr paths, w2) \<Rightarrow>
                  (let st3 = (called RenderCall st2)\<lparr>ctx := (ctx st2)\<lparr>pngPaths := paths\<rparr>\<rparr>;
                       st4 = say
                         ([Divider, Banner ''Generation Complete!'',
                           Info (''Output directory: '' @ outputDir (options (ctx st3))),
                           Info (''Slides generated: ''
                                 @ show_nat (length (htmlSlides (ctx st3)))),
                           Info (''PNG files: '' @ show_nat (length paths)),
                           Info (''QA iterations: '' @ show_int qaLoops),
                           Info (''Tokens used: ''
                                 @ toLocaleString env (input_tokens (totalTokens st3))
                                 @ '' input, ''
                                 @ toLocaleString env (output_tokens (totalTokens st3))
                                 @ '' output'')]
                          @ (case qaReport (ctx st3) of
                               Some report \<Rightarrow>
                                 if overallVerdict report = NeedsRevision
                                 then [Warn (''Note: QA still has unresolved issues after max ''
                                             @ ''iterations. Check qa-report.json.'')]
                                 else []
                             | None \<Rightarrow> [])
                          @ [Divider]) st3
                   in ((None, st4), w2))))"

text \<open>The state a loop iteration ends in, and the warning of the iteration.\<close>

fun ctl_state :: "'s ctl \<Rightarrow> 's" where
  "ctl_state (Thrown e s) = s"
| "ctl_state (Break s) = s"
| "ctl_state (Continue s) = s"

definition warn_entry :: "int \<Rightarrow> int \<Rightarrow> QAReport \<Rightarrow> log_entry" where
  "warn_entry maxQaLoops n report =
     Warn (''QA found '' @ show_nat (length (filter (\<lambda>i. severity i = High) (issues report)))
           @ '' high, ''
           @ show_nat (length (filter (\<lambda>i. severity i = Medium) (issues report)))
           @ '' medium issues. ''
           @ (if n < maxQaLoops then ''Requesting fixes...'' else ''Max iterations reached.''))"

definition unresolved_warning :: log_entry where
  "unresolved_warning =
     Warn (''Note: QA still has unresolved issues after max '' @ ''iterations. Check qa-report.json.'')"

text \<open>
  Collaborators that never throw, and a reviewer that never passes: every report has
  the verdict \<open>needs_revision\<close> and an issue of severity high or medium.
  \<open>same_frame\<close> relates two states with the same options, report and calls.
\<close>

definition never_fails :: "('w, 'research, 'plan, 'copy, 'brief) collaborators \<Rightarrow> bool" where
  "never_fails env =
     ((\<forall>c pm w. \<exists>r w'. qaReviewer_run env c pm w = (Inr r, w'))
      \<and> (\<forall>c pm w. \<exists>r w'. developer_run env c pm w = (Inr r, w'))
      \<and> (\<forall>h s w. \<exists>r w'. buildSlideHtml env h s w = (Inr r, w'))
      \<and> (\<forall>p t w. \<exists>w'. writeOutputFile env p t w = (Inr (), w'))
      \<and> (\<forall>p r w. \<exists>w'. writeJsonFile env p r w = (Inr (), w'))
      \<and> (\<forall>m d w. \<exists>r w'. renderAllSlides env m d w = (Inr r, w')))"

definition never_passes :: "('w, 'research, 'plan, 'copy, 'brief) collaborators \<Rightarrow> bool" where
  "never_passes env =
     (\<forall>c pm w r w'. qaReviewer_run env c pm w = (Inr r, w') \<longrightarrow>
        overallVerdict (agent_output r) = NeedsRevision
        \<and> (\<exists>i \<in> set (issues (agent_output r)). severity i = High \<or> severity i = Medium))"

definition same_frame ::
  "('research, 'plan, 'copy, 'brief) run_state \<Rightarrow> ('research, 'plan, 'copy, 'brief) run_state
   \<Rightarrow> bool" where
  "same_frame st st' =
     (options (ctx st') = options (ctx st) \<and> qaReport (ctx st') = qaReport (ctx st)
      \<and> calls st' = calls st)"


section \<open>Valid JSON texts\<close>

text \<open>
  The grammar of JSON (RFC 8259, ECMA-404) on strings: white space, the characters of a
  string literal with its escapes, numbers, and the values with their objects and
  arrays. An object or an array begins and ends with its own delimiters.
\<close>

definition json_ws :: "string \<Rightarrow> bool" where
  "json_ws w = list_all (\<lambda>c. c \<in> set [CHR 0x20, CHR 0x0A, CHR 0x0D, CHR 0x09]) w"

definition is_hex :: "char \<Rightarrow> bool" where
  "is_hex c = (c \<in> set ''0123456789abcdefABCDEF'')"

inductive json_characters :: "string \<Rightarrow> bool" where
  chars_Nil: "json_characters []"
| chars_plain: "c \<noteq> CHR 0x22 \<Longrightarrow> c \<noteq> CHR 0x5C \<Longrightarrow> 32 \<le> (of_char c :: nat)
     \<Longrightarrow> json_characters cs \<Longrightarrow> json_characters (c # cs)"
| chars_escape: "e \<in> set [CHR 0x22, CHR 0x5C, CHR ''/'', CHR ''b'', CHR ''f'', CHR ''n'',
                           CHR ''r'', CHR ''t'']
     \<Longrightarrow> json_characters cs \<Longrightarrow> json_characters (CHR 0x5C # e # cs)"
| chars_unicode: "is_hex h1 \<Longrightarrow> is_hex h2 \<Longrightarrow> is_hex h3 \<Longrightarrow> is_hex h4
     \<Longrightarrow> json_characters cs
     \<Longrightarrow> json_characters (CHR 0x5C # CHR ''u'' # h1 # h2 # h3 # h4 # cs)"

definition json_digits :: "string \<Rightarrow> bool" where
  "json_digits ds = (ds \<noteq> [] \<and> list_all is_digit ds)"

definition json_number :: "string \<Rightarrow> bool" where
  "json_number s =
     (\<exists>sign ip frac ex.
        s = sign @ ip @ frac @ ex
        \<and> (sign = [] \<or> sign = ''-'')
        \<and> (ip = ''0'' \<or> (json_digits ip \<and> hd ip \<noteq> CHR ''0''))
        \<and> (frac = [] \<or> (\<exists>ds. frac = CHR ''.'' # ds \<and> json_digits ds))
        \<and> (ex = [] \<or> (\<exists>m sg ds. ex = m # sg @ ds \<and> (m = CHR ''e'' \<or> m = CHR ''E'')
                            \<and> (sg = [] \<or> sg = ''+'' \<or> sg = ''-'') \<and> json_digits ds)))"

inductive json_value :: "string \<Rightarrow> bool"
  and json_object :: "string \<Rightarrow> bool"
  and json_array :: "string \<Rightarrow> bool"
  and json_elements :: "string \<Rightarrow> bool"
  and json_members :: "string \<Rightarrow> bool" where
  v_object: "json_object s \<Longrightarrow> json_value s"
| v_array: "json_array s \<Longrightarrow> json_value s"
| v_string: "json_characters cs \<Longrightarrow> json_value (CHR 0x22 # cs @ [CHR 0x22])"
| v_number: "json_number s \<Longrightarrow> json_value s"
| v_true: "json_value ''true''"
| v_false: "json_value ''false''"
| v_null: "json_value ''null''"
| o_empty: "json_ws w \<Longrightarrow> json_object (CHR ''{'' # w @ ''}'')"
| o_members: "json_members ms \<Longrightarrow> json_object (CHR ''{'' # ms @ ''}'')"
| a_empty: "json_ws w \<Longrightarrow> json_array (CHR ''['' # w @ '']'')"
| a_elements: "json_elements es \<Longrightarrow> json_array (CHR ''['' # es @ '']'')"
| e_one: "json_ws w1 \<Longrightarrow> json_value v \<Longrightarrow> json_ws w2 \<Longrightarrow> json_elements (w1 @ v @ w2)"
| e_more: "json_ws w1 \<Longrightarrow> json_value v \<Longrightarrow> json_ws w2 \<Longrightarrow> json_elements es
     \<Longrightarrow> json_elements (w1 @ v @ w2 @ CHR '','' # es)"
| m_one: "json_ws w1 \<Longrightarrow> json_characters k \<Longrightarrow> json_ws w2 \<Longrightarrow> json_ws w3
     \<Longrightarrow> json_value v \<Longrightarrow> json_ws w4
     \<Longrightarrow> json_members (w1 @ CHR 0x22 # k @ CHR 0x22 # w2 @ CHR '':'' # w3 @ v @ w4)"
| m_more: "json_ws w1 \<Longrightarrow> json_characters k \<Longrightarrow> json_ws w2 \<Longrightarrow> json_ws w3
     \<Longrightarrow> json_value v \<Longrightarrow> json_ws w4 \<Longrightarrow> json_members ms
     \<Longrightarrow> json_members (w1 @ CHR 0x22 # k @ CHR 0x22 # w2 @ CHR '':'' # w3 @ v @ w4
                         @ CHR '','' # ms)"

text \<open>
  Notions for the proofs about the forward walk. \<open>scan_skips opn cls d b x\<close>: from depth
  \<open>d\<close> and string state \<open>b\<close> the walk reads \<open>x\<close> without returning and is in the same
  state after it. \<open>scan_passes\<close>: so from every depth of at least one, outside a string.
  \<open>delimiters\<close> are the two delimiter pairs; the \<open>structural\<close> characters are those the
  walk looks at. \<open>atoms_imply Q r\<close>: every character a word of \<open>r\<close> can hold satisfies
  \<open>Q\<close>.
\<close>

definition scan_skips :: "char \<Rightarrow> char \<Rightarrow> int \<Rightarrow> bool \<Rightarrow> string \<Rightarrow> bool" where
  "scan_skips opn cls d b x =
     (\<forall>r i. scan opn cls (x @ r) i d b False = scan opn cls r (i + length x) d b False)"

definition delimiters :: "char \<Rightarrow> char \<Rightarrow> bool" where
  "delimiters opn cls =
     ((opn = CHR ''{'' \<and> cls = CHR ''}'') \<or> (opn = CHR ''['' \<and> cls = CHR '']''))"

definition structural :: "char \<Rightarrow> bool" where
  "structural c = (c \<in> set [CHR 0x5C, CHR 0x22, CHR ''{'', CHR ''}'', CHR ''['', CHR '']''])"

definition scan_passes :: "char \<Rightarrow> char \<Rightarrow> string \<Rightarrow> bool" where
  "scan_passes opn cls s = (\<forall>d. 1 \<le> d \<longrightarrow> scan_skips opn cls d False s)"

fun atoms_imply :: "(char \<Rightarrow> bool) \<Rightarrow> re \<Rightarrow> bool" where
  "atoms_imply Q Eps = True"
| "atoms_imply Q (Atom p) = (\<forall>c. p c \<longrightarrow> Q c)"
| "atoms_imply Q (Seq a b) = (atoms_imply Q a \<and> atoms_imply Q b)"
| "atoms_imply Q (Alt a b) = (atoms_imply Q a \<and> atoms_imply Q b)"
| "atoms_imply Q (Star a) = atoms_imply Q a"

section \<open>Examples\<close>

text \<open>
  Collaborators for examples: a reviewer whose every report has the verdict
  \<open>needs_revision\<close> and one issue of the given severity, a developer that returns one
  slide, and a file system and a renderer that succeed.
\<close>

definition example_report :: "IssueSeverity \<Rightarrow> QAReport" where
  "example_report sev =
     \<lparr> passedAutoChecks = False, autoCheckResults = [],
       issues = [\<lparr> slideNumber = 1, severity = sev, category = ''layout'',
                   description = ''Text overflows the card'', suggestion = None \<rparr>],
       overallVerdict = NeedsRevision \<rparr>"

definition example_env :: "IssueSeverity \<Rightarrow> (unit, unit, unit, unit, unit) collaborators" where
  "example_env sev =
     \<lparr> qaReviewer_run = (\<lambda>c pm w.
         (Inr \<lparr> agent_output = example_report sev,
                tokensUsed = \<lparr> input_tokens = 10, output_tokens = 5 \<rparr>,
                model_used = ''m'' \<rparr>, w)),
       developer_run = (\<lambda>c pm w.
         (Inr \<lparr> agent_output = \<lparr> dev_slides = [\<lparr> dev_slideNumber = 1, dev_html = ''<p>x</p>'' \<rparr>] \<rparr>,
                tokensUsed = \<lparr> input_tokens = 20, output_tokens = 30 \<rparr>,
                model_used = ''m'' \<rparr>, w)),
       buildSlideHtml = (\<lambda>h s w. (Inr h, w)),
       writeOutputFile = (\<lambda>p t w. (Inr (), w)),
       writeJsonFile = (\<lambda>p r w. (Inr (), w)),
       renderAllSlides = (\<lambda>m d w. (Inr (map (\<lambda>(k, v). (k, d @ ''/slide.png'')) m), w)),
       closeBrowser = (\<lambda>w. (Inr (), w)),
       toLocaleString = show_int \<rparr>"

definition example_state :: "(unit, unit, unit, unit) run_state" where
  "example_state =
     \<lparr> ctx = new_PipelineContext \<lparr> topic = ''t'', inputFile = None, series = ''default'',
                                   slideCount = 1, outputDir = ''out'', model = None \<rparr>,
       totalTokens = \<lparr> input_tokens = 0, output_tokens = 0 \<rparr>,
       logged = [], calls = [] \<rparr>"

text \<open>
  A runtime for examples: its \<open>JSON.parse\<close> knows one text, a payload whose only slide
  has no \<open>html\<close>, and rejects every other.
\<close>

definition stub_runtime :: runtime where
  "stub_runtime =
     \<lparr> JSON_parse = (\<lambda>s. if s = ''{\"slides\":[{\"slideNumber\":1}]}''
          then Inr (JObj [(''slides'', JArr [JObj [(''slideNumber'', JNum (Finite 1))]])])
          else Inl ''Unexpected token''),
       String_of = (\<lambda>v. ''undefined'') \<rparr>"

section \<open>Properties of the pipeline context\<close>

text \<open>
  C5. For every context, \<open>hasBlockingIssues\<close> is true exactly when a QA report has
  been recorded and one of its issues has severity high or medium; with no report
  recorded it is false.
\<close>

theorem hasBlockingIssues_iff:
  "(hasBlockingIssues c \<longleftrightarrow>
      (\<exists>r. qaReport c = Some r \<and>
           (\<exists>i \<in> set (issues r). severity i = High \<or> severity i = Medium)))
   \<and> \<not> hasBlockingIssues (c\<lparr>qaReport := None\<rparr>)"
proof
  show "hasBlockingIssues c \<longleftrightarrow>
      (\<exists>r. qaReport c = Some r \<and>
           (\<exists>i \<in> set (issues r). severity i = High \<or> severity i = Medium))"
  proof (cases "qaReport c")
    case None
    then show ?thesis by (simp add: hasBlockingIssues_def)
  next
    case (Some r)
    then show ?thesis by (simp add: hasBlockingIssues_def list_ex_iff)
  qed
  show "\<not> hasBlockingIssues (c\<lparr>qaReport := None\<rparr>)"
    by (simp add: hasBlockingIssues_def)
qed

text \<open>
  C8. Each stage accessor fails when its slot is empty, with the message that names
  the agent to run first (the researcher, the contents-marketer for the plan and for
  the copy, the designer), and returns exactly the artifact once one has been written.
\<close>

theorem require_accessors:
  "requireResearch (c\<lparr>research := None\<rparr>)
     = Inl (Error ''Research output not available. Run researcher first.'')
   \<and> requirePlan (c\<lparr>plan := None\<rparr>)
     = Inl (Error ''Plan output not available. Run contents-marketer first.'')
   \<and> requireCopy (c\<lparr>copy := None\<rparr>)
     = Inl (Error ''Copy output not available. Run contents-marketer first.'')
   \<and> requireDesignBrief (c\<lparr>designBrief := None\<rparr>)
     = Inl (Error ''Design brief not available. Run designer first.'')
   \<and> requireResearch (c\<lparr>research := Some r\<rparr>) = Inr r
   \<and> requirePlan (c\<lparr>plan := Some p\<rparr>) = Inr p
   \<and> requireCopy (c\<lparr>copy := Some cp\<rparr>) = Inr cp
   \<and> requireDesignBrief (c\<lparr>designBrief := Some d\<rparr>) = Inr d"
  by (simp add: requireResearch_def requirePlan_def requireCopy_def requireDesignBrief_def)


section \<open>Properties of extractJson\<close>

lemma rmatch_Star_unfold:
  "set (rmatch (Star a) s) =
     insert s (\<Union>u \<in> {u \<in> set (rmatch a s). length u < length s}. set (rmatch (Star a) u))"
  by (subst rmatch.simps) auto

lemma rmatch_suffix: "t \<in> set (rmatch r s) \<Longrightarrow> \<exists>w. s = w @ t"
proof (induction r s arbitrary: t rule: rmatch.induct)
  case (1 s)
  then show ?case by simp
next
  case (2 p s)
  then show ?case by (cases s) (auto split: if_splits)
next
  case (3 a b s)
  from "3.prems" obtain u where u: "u \<in> set (rmatch a s)" "t \<in> set (rmatch b u)" by auto
  from "3.IH"(1)[OF u(1)] obtain w1 where "s = w1 @ u" by blast
  moreover from "3.IH"(2)[OF u(1) u(2)] obtain w2 where "u = w2 @ t" by blast
  ultimately have "s = (w1 @ w2) @ t" by simp
  then show ?case by blast
next
  case (4 a b s)
  then show ?case by auto
next
  case (5 a s)
  from "5.prems" consider "t = s"
    | u where "u \<in> set (rmatch a s)" "length u < length s" "t \<in> set (rmatch (Star a) u)"
    unfolding rmatch_Star_unfold[of a s] by blast
  then show ?case
  proof cases
    case 1
    then show ?thesis by simp
  next
    case 2
    from "5.IH"(1)[OF 2(1)] obtain w1 where "s = w1 @ u" by blast
    moreover from "5.IH"(2)[of u t] 2 obtain w2 where "u = w2 @ t" by simp blast
    ultimately have "s = (w1 @ w2) @ t" by simp
    then show ?thesis by blast
  qed
qed

lemma rmatch_cap_sub:
  assumes "(cap, rest) \<in> set (rmatch_cap pre grp post s)"
  shows "\<exists>u v. s = u @ cap @ v @ rest"
proof -
  from assms obtain t1 t2 where t: "t1 \<in> set (rmatch pre s)" "t2 \<in> set (rmatch grp t1)"
    "rest \<in> set (rmatch post t2)" "cap = take (length t1 - length t2) t1"
    by (auto simp: rmatch_cap_def)
  from rmatch_suffix[OF t(1)] obtain u where u: "s = u @ t1" by blast
  from rmatch_suffix[OF t(2)] obtain c where c: "t1 = c @ t2" by blast
  from rmatch_suffix[OF t(3)] obtain v where v: "t2 = v @ rest" by blast
  from c t(4) have "cap = c" by simp
  with u c v have "s = u @ cap @ v @ rest" by simp
  then show ?thesis by blast
qed

lemma fenceMatch_sub:
  assumes "fenceMatch s = Some cap"
  shows "\<exists>u v. s = u @ cap @ v"
proof -
  let ?ms = "filter (\<lambda>(cap, rest). rest = []) (rmatch_cap fence_pre fence_grp fence_post s)"
  from assms obtain rest others where "?ms = (cap, rest) # others"
    by (auto simp: fenceMatch_def split: list.splits)
  then have "(cap, rest) \<in> set ?ms" by simp
  then have "(cap, rest) \<in> set (rmatch_cap fence_pre fence_grp fence_post s)" by auto
  from rmatch_cap_sub[OF this] show ?thesis by blast
qed

lemma trim_sub: "\<exists>u v. s = u @ trim s @ v"
proof -
  let ?x = "dropWhile is_space s"
  have "?x = trim s @ rev (takeWhile is_space (rev ?x))"
    unfolding trim_def by (metis rev_append rev_rev_ident takeWhile_dropWhile_id)
  moreover have "s = takeWhile is_space s @ ?x" by simp
  ultimately have "s = takeWhile is_space s @ trim s @ rev (takeWhile is_space (rev ?x))"
    by simp
  then show ?thesis by blast
qed

lemma cleaned_sub: "\<exists>u v. text = u @ cleaned_text text @ v"
proof (cases "fenceMatch (trim text)")
  case None
  then have "cleaned_text text = trim text" by (simp add: cleaned_text_def)
  then show ?thesis using trim_sub[of "text"] by simp
next
  case (Some cap)
  then have eq: "cleaned_text text = trim cap" by (simp add: cleaned_text_def)
  from trim_sub[of "text"] obtain u1 v1 where a: "text = u1 @ trim text @ v1" by blast
  from fenceMatch_sub[OF Some] obtain u2 v2 where b: "trim text = u2 @ cap @ v2" by blast
  from trim_sub[of cap] obtain u3 v3 where c: "cap = u3 @ trim cap @ v3" by blast
  have "text = (u1 @ u2 @ u3) @ trim cap @ (v3 @ v2 @ v1)"
    using a b c by (metis append.assoc)
  then show ?thesis unfolding eq by blast
qed

lemma scan_bounds:
  "scan opn cls rest i d b e = Some k \<Longrightarrow> i \<le> k \<and> k < i + length rest"
proof (induction rest arbitrary: i d b e)
  case Nil
  then show ?case by simp
next
  case (Cons ch rest)
  then show ?case by (fastforce split: if_splits)
qed

lemma extract_sub: "\<exists>pre suf. cleaned_text text = pre @ extractJson text @ suf"
proof -
  have sub: "\<exists>pre suf. s = pre @ substring s a b @ suf" for s :: string and a b
  proof -
    have "drop a s = take (b - a) (drop a s) @ drop (b - a) (drop a s)"
      by (rule append_take_drop_id[symmetric])
    then have "s = take a s @ take (b - a) (drop a s) @ drop (b - a) (drop a s)"
      by (metis append_take_drop_id)
    then show ?thesis unfolding substring_def by blast
  qed
  have self: "\<exists>pre suf. s = pre @ s @ suf" for s :: string
    by (rule exI[of _ "[]"], rule exI[of _ "[]"]) simp
  show ?thesis
    unfolding extractJson_def Let_def
    by (auto split: option.splits prod.splits intro: sub self)
qed



text \<open>
  C6. \<open>extractJson\<close> is a total function from strings to strings: none of its steps can
  throw. Its result is a contiguous part of the trimmed, fence-stripped text, hence of
  the input, and is never longer than the trimmed, fence-stripped text.
\<close>

theorem extractJson_substring:
  "(\<exists>pre suf. cleaned_text text = pre @ extractJson text @ suf)
   \<and> (\<exists>pre suf. text = pre @ extractJson text @ suf)
   \<and> length (extractJson text) \<le> length (cleaned_text text)"
proof -
  from extract_sub[of "text"] obtain p1 s1
    where a: "cleaned_text text = p1 @ extractJson text @ s1" by blast
  from cleaned_sub[of "text"] obtain p2 s2
    where b: "text = p2 @ cleaned_text text @ s2" by blast
  have "text = (p2 @ p1) @ extractJson text @ (s1 @ s2)"
    by (subst b, subst a) simp
  moreover have "length (cleaned_text text) = length (p1 @ extractJson text @ s1)"
    using a by simp
  then have "length (extractJson text) \<le> length (cleaned_text text)"
    by simp
  ultimately show ?thesis using a by blast
qed

section \<open>Properties of the build-stage decode\<close>

lemma repair_repair: "repair (repair s i e) i e = repair s i e"
  by (induction s arbitrary: i e) auto


text \<open>
  C7. The repair pass is idempotent: repairing a repaired text changes nothing.
\<close>

theorem repair_pass_idempotent: "fixed (fixed json) = fixed json"
proof -
  have "repair (repair json False False) False False = repair json False False"
    by (rule repair_repair)
  then show ?thesis
    by (simp add: fixed_def)
qed

lemma is_number_iff: "is_number n \<longleftrightarrow> (\<exists>m. n = Some (JNum m))"
  by (cases n rule: is_number.cases) simp_all

lemma is_string_iff: "is_string h \<longleftrightarrow> (\<exists>s. h = Some (JStr s))"
  by (cases h rule: is_string.cases) simp_all

lemma slide_complete_iff:
  "slide_complete x \<longleftrightarrow>
     (\<exists>kvs m s. x = JObj kvs \<and> map_of kvs ''slideNumber'' = Some (JNum m)
        \<and> map_of kvs ''html'' = Some (JStr s))"
proof (cases x)
  case (JObj kvs)
  then show ?thesis
    by (simp split: option.splits json.splits)
qed simp_all


lemma check_slides_complete:
  "check_slides rt xs = None \<longleftrightarrow> list_all slide_complete xs"
proof (induction xs)
  case Nil
  then show ?case by simp
next
  case (Cons x xs)
  show ?case
  proof (cases "slide_complete x")
    case True
    then obtain kvs m s where "x = JObj kvs" "map_of kvs ''slideNumber'' = Some (JNum m)"
      "map_of kvs ''html'' = Some (JStr s)"
      unfolding slide_complete_iff by blast
    with True Cons.IH show ?thesis by simp
  next
    case False
    have "check_slides rt (x # xs) \<noteq> None"
    proof (cases x)
      case (JObj kvs)
      with False have nc: "\<not> (is_number (map_of kvs ''slideNumber'')
          \<and> is_string (map_of kvs ''html''))"
        unfolding slide_complete_iff is_number_iff is_string_iff by auto
      then show ?thesis using JObj by auto
    qed simp_all
    with False show ?thesis by simp
  qed
qed

lemma slides_gate:
  "(case get_prop v ''slides'' of Inl e \<Rightarrow> None
    | Inr s \<Rightarrow> if falsy s \<or> \<not> isArray s then None else Some (array_elements s)) = slides_of v"
proof (cases v)
  case (JObj kvs)
  show ?thesis
  proof (cases "map_of kvs ''slides''")
    case None
    with JObj show ?thesis by simp
  next
    case (Some s)
    with JObj show ?thesis by (cases s) simp_all
  qed
qed simp_all

lemma parseResponse_decoded:
  assumes "parse_with_repair rt (extractJson text) = Inr v"
  shows "if complete_payload v then parseResponse rt text = Inr v
         else (\<exists>e. parseResponse rt text = Inl e)"
proof (cases "slides_of v")
  case None
  then have "case get_prop v ''slides'' of Inl e \<Rightarrow> True
             | Inr s \<Rightarrow> falsy s \<or> \<not> isArray s"
    using slides_gate[of v] by (auto split: sum.splits if_splits)
  then have "\<exists>e. parseResponse rt text = Inl e"
    using assms by (auto simp: parseResponse_def split: sum.splits)
  with None show ?thesis by (simp add: complete_payload_def)
next
  case (Some xs)
  then obtain s where s: "get_prop v ''slides'' = Inr s" "\<not> (falsy s \<or> \<not> isArray s)"
    "array_elements s = xs"
    using slides_gate[of v] by (auto split: sum.splits if_splits)
  show ?thesis
  proof (cases "list_all slide_complete xs")
    case True
    then have "check_slides rt xs = None" by (simp add: check_slides_complete)
    with s assms True Some show ?thesis
      by (simp add: parseResponse_def complete_payload_def)
  next
    case False
    then obtain e where "check_slides rt xs = Some e"
      using check_slides_complete[of rt xs] by auto
    with s assms False Some show ?thesis
      by (simp add: parseResponse_def complete_payload_def)
  qed
qed


lemma decodes_to_parse: "decodes_to rt json v \<longleftrightarrow> parse_with_repair rt json = Inr v"
  by (auto simp: decodes_to_def parse_with_repair_def isl_def split: sum.splits)

text \<open>
  C9. Whatever \<open>JSON.parse\<close> does: when the extracted text decodes to a value that
  lacks the array \<open>slides\<close>, or one of whose slide records lacks a number
  \<open>slideNumber\<close> or a string \<open>html\<close>, \<open>parseResponse\<close> throws; a value with all
  required fields is returned as it is. When the parse fails again after the repair
  pass, the error thrown carries the first 500 characters of the extracted text.
\<close>

theorem parseResponse_rejects_incomplete:
  "(decodes_to rt (extractJson responseText) v \<longrightarrow>
      (if complete_payload v then parseResponse rt responseText = Inr v
       else (\<exists>e. parseResponse rt responseText = Inl e)))
   \<and> (JSON_parse rt (extractJson responseText) = Inl e1
        \<and> JSON_parse rt (fixed (extractJson responseText)) = Inl e2 \<longrightarrow>
      parseResponse rt responseText =
        Inl (Error (''Failed to parse developer JSON: '' @ e2 @ [CHR 0x0A]
               @ ''Extracted JSON preview:'' @ [CHR 0x0A] @ take 500 (extractJson responseText))))"
proof (intro conjI impI)
  assume "decodes_to rt (extractJson responseText) v"
  then have "parse_with_repair rt (extractJson responseText) = Inr v"
    by (simp add: decodes_to_parse)
  then show "if complete_payload v then parseResponse rt responseText = Inr v
             else (\<exists>e. parseResponse rt responseText = Inl e)"
    by (rule parseResponse_decoded)
next
  assume "JSON_parse rt (extractJson responseText) = Inl e1
          \<and> JSON_parse rt (fixed (extractJson responseText)) = Inl e2"
  then show "parseResponse rt responseText =
        Inl (Error (''Failed to parse developer JSON: '' @ e2 @ [CHR 0x0A]
               @ ''Extracted JSON preview:'' @ [CHR 0x0A] @ take 500 (extractJson responseText)))"
    by (simp add: parseResponse_def parse_with_repair_def substring_def)
qed

theorem parseResponse_rejects_incomplete_witness:
  "(\<exists>e. parseResponse stub_runtime ''Here: {\"slides\":[{\"slideNumber\":1}]} '' = Inl e)
   \<and> parseResponse stub_runtime ''oops'' =
       Inl (Error (''Failed to parse developer JSON: Unexpected token'' @ [CHR 0x0A]
              @ ''Extracted JSON preview:'' @ [CHR 0x0A] @ ''oops''))"
proof
  let ?v = "JObj [(''slides'', JArr [JObj [(''slideNumber'', JNum (Finite 1))]])]"
  have d: "decodes_to stub_runtime
             (extractJson ''Here: {\"slides\":[{\"slideNumber\":1}]} '') ?v"
    unfolding stub_runtime_def by code_simp
  have nc: "\<not> complete_payload ?v"
    by (simp add: complete_payload_def)
  from parseResponse_rejects_incomplete
         [where rt = stub_runtime and v = ?v
            and responseText = "''Here: {\"slides\":[{\"slideNumber\":1}]} ''"] d nc
  show "\<exists>e. parseResponse stub_runtime ''Here: {\"slides\":[{\"slideNumber\":1}]} '' = Inl e"
    by simp
next
  have x: "extractJson ''oops'' = ''oops''"
    by code_simp
  have y: "fixed ''oops'' = ''oops''"
    by code_simp
  have f: "JSON_parse stub_runtime ''oops'' = Inl ''Unexpected token''"
    by (simp add: stub_runtime_def)
  from parseResponse_rejects_incomplete
         [where rt = stub_runtime and responseText = "''oops''" and ?e1.0 = "''Unexpected token''"
            and ?e2.0 = "''Unexpected token''"] f
  show "parseResponse stub_runtime ''oops'' =
       Inl (Error (''Failed to parse developer JSON: Unexpected token'' @ [CHR 0x0A]
              @ ''Extracted JSON preview:'' @ [CHR 0x0A] @ ''oops''))"
    by (simp add: x y)
qed

section \<open>Properties of the validation rule engine\<close>

lemma count_results_eq:
  "count_results rs (h, m, l) =
     (h + failed_with High rs, m + failed_with Medium rs, l + failed_with Low rs)"
proof (induction rs arbitrary: h m l)
  case Nil
  then show ?case by (simp add: failed_with_def)
next
  case (Cons r rs)
  show ?case
    by (cases "result_severity r") (simp_all add: Cons.IH failed_with_def)
qed

lemma failed_with_append: "failed_with sev (xs @ ys) = failed_with sev xs + failed_with sev ys"
  by (simp add: failed_with_def)

lemma validate_keys_counts:
  "validate_keys slides nums (reps, h, m, l) = (reps', h', m', l') \<Longrightarrow>
     h = failed_with High (concat (map results reps)) \<Longrightarrow>
     m = failed_with Medium (concat (map results reps)) \<Longrightarrow>
     l = failed_with Low (concat (map results reps)) \<Longrightarrow>
     h' = failed_with High (concat (map results reps'))
     \<and> m' = failed_with Medium (concat (map results reps'))
     \<and> l' = failed_with Low (concat (map results reps'))"
proof (induction nums arbitrary: reps h m l)
  case Nil
  then show ?case by auto
next
  case (Cons num nums)
  show ?case
  proof (cases "map_of slides num")
    case None
    with Cons.prems Cons.IH[of reps h m l] show ?thesis by simp
  next
    case (Some html)
    show ?thesis
    proof (cases "html = []")
      case True
      with Some Cons.prems Cons.IH[of reps h m l] show ?thesis by simp
    next
      case False
      let ?rep = "validateSlide html num"
      have step: "validate_keys slides nums
                    (reps @ [?rep], h + failed_with High (results ?rep),
                     m + failed_with Medium (results ?rep), l + failed_with Low (results ?rep))
                  = (reps', h', m', l')"
        using Cons.prems(1) Some False by (simp add: Let_def count_results_eq)
      show ?thesis
        by (rule Cons.IH[OF step]) (simp_all add: Cons.prems failed_with_append)
    qed
  qed
qed

lemma validateAllSlides_counts:
  "highCount (fst (validateAllSlides slides))
     = failed_with High (concat (map results (reports (fst (validateAllSlides slides)))))
   \<and> mediumCount (fst (validateAllSlides slides))
     = failed_with Medium (concat (map results (reports (fst (validateAllSlides slides)))))
   \<and> lowCount (fst (validateAllSlides slides))
     = failed_with Low (concat (map results (reports (fst (validateAllSlides slides)))))
   \<and> allPassed (fst (validateAllSlides slides))
     = (highCount (fst (validateAllSlides slides)) = 0
        \<and> mediumCount (fst (validateAllSlides slides)) = 0)"
proof -
  obtain reps h m l where vk:
    "validate_keys slides (sortedKeys slides) ([], 0, 0, 0) = (reps, h, m, l)"
    by (metis prod_cases4)
  from validate_keys_counts[OF vk]
  have c: "h = failed_with High (concat (map results reps))"
    "m = failed_with Medium (concat (map results reps))"
    "l = failed_with Low (concat (map results reps))"
    by (simp_all add: failed_with_def)
  show ?thesis
    using c by (simp add: validateAllSlides_def vk Let_def)
qed

text \<open>
  C3. For every slide map, \<open>allPassed\<close> is true exactly when \<open>highCount\<close> and
  \<open>mediumCount\<close> are both zero, whatever \<open>lowCount\<close> is. Each counter is the number of
  failed findings of its severity in the reports returned, so \<open>allPassed\<close> is false
  exactly when some failed finding has a severity other than low.
\<close>

theorem validateAllSlides_allPassed:
  "allPassed (fst (validateAllSlides slides))
     = (highCount (fst (validateAllSlides slides)) = 0
        \<and> mediumCount (fst (validateAllSlides slides)) = 0)
   \<and> highCount (fst (validateAllSlides slides))
     = failed_with High (concat (map results (reports (fst (validateAllSlides slides)))))
   \<and> mediumCount (fst (validateAllSlides slides))
     = failed_with Medium (concat (map results (reports (fst (validateAllSlides slides)))))
   \<and> lowCount (fst (validateAllSlides slides))
     = failed_with Low (concat (map results (reports (fst (validateAllSlides slides)))))
   \<and> allPassed (fst (validateAllSlides slides))
     = (\<not> (\<exists>x \<in> set (concat (map results (reports (fst (validateAllSlides slides))))).
             \<not> result_passed x \<and> result_severity x \<noteq> Low))"
proof -
  let ?r = "fst (validateAllSlides slides)"
  let ?fs = "concat (map results (reports ?r))"
  note c = validateAllSlides_counts[of slides]
  have zero: "failed_with sev fs = 0
      \<longleftrightarrow> \<not> (\<exists>x \<in> set fs. \<not> result_passed x \<and> result_severity x = sev)" for sev fs
    unfolding failed_with_def length_0_conv filter_empty_conv by blast
  have low: "(\<not> (\<exists>x \<in> set fs. \<not> result_passed x \<and> result_severity x = High)
              \<and> \<not> (\<exists>x \<in> set fs. \<not> result_passed x \<and> result_severity x = Medium))
      = (\<not> (\<exists>x \<in> set fs. \<not> result_passed x \<and> result_severity x \<noteq> Low))" for fs
  proof -
    have "sev \<noteq> Low \<longleftrightarrow> sev = High \<or> sev = Medium" for sev
      by (cases sev) simp_all
    then show ?thesis by blast
  qed
  from c have a: "allPassed ?r = (highCount ?r = 0 \<and> mediumCount ?r = 0)"
    by (elim conjE)
  from c have h: "highCount ?r = failed_with High ?fs"
    by (elim conjE)
  from c have m: "mediumCount ?r = failed_with Medium ?fs"
    by (elim conjE)
  from c have l: "lowCount ?r = failed_with Low ?fs"
    by (elim conjE)
  have "allPassed ?r = (failed_with High ?fs = 0 \<and> failed_with Medium ?fs = 0)"
    by (subst a, subst h, subst m) (rule refl)
  also have "\<dots> = (\<not> (\<exists>x \<in> set ?fs. \<not> result_passed x \<and> result_severity x \<noteq> Low))"
    unfolding zero by (rule low)
  finally have b: "allPassed ?r
      = (\<not> (\<exists>x \<in> set ?fs. \<not> result_passed x \<and> result_severity x \<noteq> Low))" .
  show ?thesis
    by (intro conjI) (rule a, rule h, rule m, rule l, rule b)
qed

section \<open>The matcher finds exactly the words a pattern denotes\<close>

inductive_cases matches_EpsE: "matches Eps w"
inductive_cases matches_AtomE: "matches (Atom p) w"
inductive_cases matches_SeqE: "matches (Seq a b) w"
inductive_cases matches_AltE: "matches (Alt a b) w"

lemma matches_Eps_iff: "matches Eps w \<longleftrightarrow> w = []"
  by (auto intro: matches.intros elim: matches_EpsE)

lemma matches_Atom_iff: "matches (Atom p) w \<longleftrightarrow> (\<exists>c. w = [c] \<and> p c)"
  by (auto intro: matches.intros elim: matches_AtomE)

lemma matches_Seq_iff:
  "matches (Seq a b) w \<longleftrightarrow> (\<exists>u v. w = u @ v \<and> matches a u \<and> matches b v)"
  by (blast intro: matches.intros elim: matches_SeqE)

lemma matches_Seq_Atom:
  "matches (Seq (Atom p) r) w \<longleftrightarrow> (\<exists>c v. w = c # v \<and> p c \<and> matches r v)"
proof
  assume "matches (Seq (Atom p) r) w"
  then obtain u v c where "w = u @ v" "u = [c]" "p c" "matches r v"
    unfolding matches_Seq_iff matches_Atom_iff by blast
  then have "w = c # v \<and> p c \<and> matches r v" by simp
  then show "\<exists>c v. w = c # v \<and> p c \<and> matches r v" by blast
next
  assume "\<exists>c v. w = c # v \<and> p c \<and> matches r v"
  then obtain c v where w: "w = [c] @ v" and c: "p c" and v: "matches r v" by auto
  from c have "matches (Atom p) [c]" by (rule m_Atom)
  then have "matches (Seq (Atom p) r) ([c] @ v)" using v by (rule m_Seq)
  then show "matches (Seq (Atom p) r) w" using w by simp
qed

lemma matches_Alt_iff: "matches (Alt a b) w \<longleftrightarrow> matches a w \<or> matches b w"
  by (auto intro: matches.intros elim: matches_AltE)

lemma matches_Opt_iff: "matches (Opt r) w \<longleftrightarrow> matches r w \<or> w = []"
  by (simp add: Opt_def matches_Alt_iff matches_Eps_iff)

lemma matches_Star_Atom: "matches (Star (Atom p)) w \<longleftrightarrow> list_all p w"
proof
  assume "matches (Star (Atom p)) w"
  then show "list_all p w"
  proof (induction "Star (Atom p)" w rule: matches.induct)
    case m_StarNil
    then show ?case by simp
  next
    case (m_StarStep u v)
    then show ?case by (auto simp: matches_Atom_iff)
  qed
next
  assume "list_all p w"
  then show "matches (Star (Atom p)) w"
  proof (induction w)
    case Nil
    show ?case by (rule m_StarNil)
  next
    case (Cons c w)
    then have "matches (Atom p) [c]" "matches (Star (Atom p)) w"
      by (auto intro: matches.intros)
    then have "matches (Star (Atom p)) ([c] @ w)" by (rule m_StarStep)
    then show ?case by simp
  qed
qed

lemma matches_lit_i: "matches (lit_i s) w \<longleftrightarrow> eq_ignore_case w s"
  unfolding eq_ignore_case_def
proof (induction s arbitrary: w)
  case Nil
  then show ?case by (simp add: matches_Eps_iff)
next
  case (Cons c s)
  show ?case
  proof (cases w)
    case Nil
    then show ?thesis by (simp add: matches_Seq_Atom)
  next
    case (Cons x xs)
    then show ?thesis
      by (simp add: matches_Seq_Atom Cons.IH)
  qed
qed

lemma matches_one_of: "matches (one_of cs) w \<longleftrightarrow> (\<exists>c \<in> set cs. w = [c])"
  by (auto simp: one_of_def matches_Atom_iff)

lemma matches_seqs_Cons:
  "matches (seqs (r # rs)) w \<longleftrightarrow> (\<exists>u v. w = u @ v \<and> matches r u \<and> matches (seqs rs) v)"
  by (simp add: matches_Seq_iff)

lemma matches_seqs_Nil: "matches (seqs []) w \<longleftrightarrow> w = []"
  by (simp add: matches_Eps_iff)

lemma rmatch_sound: "t \<in> set (rmatch r s) \<Longrightarrow> \<exists>w. s = w @ t \<and> matches r w"
proof (induction r s arbitrary: t rule: rmatch.induct)
  case (1 s)
  then show ?case by (auto intro: matches.intros)
next
  case (2 p s)
  then show ?case by (cases s) (auto split: if_splits intro: matches.intros)
next
  case (3 a b s)
  from "3.prems" obtain u where u: "u \<in> set (rmatch a s)" "t \<in> set (rmatch b u)" by auto
  from "3.IH"(1)[OF u(1)] obtain w1 where w1: "s = w1 @ u" "matches a w1" by blast
  from "3.IH"(2)[OF u(1) u(2)] obtain w2 where w2: "u = w2 @ t" "matches b w2" by blast
  from w1 w2 have "s = (w1 @ w2) @ t" "matches (Seq a b) (w1 @ w2)"
    by (auto intro: matches.intros)
  then show ?case by blast
next
  case (4 a b s)
  from "4.prems" consider "t \<in> set (rmatch a s)" | "t \<in> set (rmatch b s)" by auto
  then show ?case
  proof cases
    case 1
    from "4.IH"(1)[OF 1] obtain w where "s = w @ t" "matches a w" by blast
    then have "s = w @ t \<and> matches (Alt a b) w" by (auto intro: matches.intros)
    then show ?thesis by blast
  next
    case 2
    from "4.IH"(2)[OF 2] obtain w where "s = w @ t" "matches b w" by blast
    then have "s = w @ t \<and> matches (Alt a b) w" by (auto intro: matches.intros)
    then show ?thesis by blast
  qed
next
  case (5 a s)
  from "5.prems" consider "t = s"
    | u where "u \<in> set (rmatch a s)" "length u < length s" "t \<in> set (rmatch (Star a) u)"
    unfolding rmatch_Star_unfold[of a s] by blast
  then show ?case
  proof cases
    case 1
    have "s = [] @ s \<and> matches (Star a) []" by (auto intro: matches.intros)
    with 1 show ?thesis by blast
  next
    case 2
    from "5.IH"(1)[OF 2(1)] obtain w1 where w1: "s = w1 @ u" "matches a w1" by blast
    from "5.IH"(2)[of u t] 2 obtain w2 where w2: "u = w2 @ t" "matches (Star a) w2"
      by simp blast
    from w1 w2 have "s = (w1 @ w2) @ t" "matches (Star a) (w1 @ w2)"
      by (auto intro: matches.intros)
    then show ?thesis by blast
  qed
qed

lemma rmatch_complete: "matches r w \<Longrightarrow> t \<in> set (rmatch r (w @ t))"
proof (induction r w arbitrary: t rule: matches.induct)
  case m_Eps
  then show ?case by simp
next
  case (m_Atom p c)
  then show ?case by simp
next
  case (m_Seq a u b v)
  have "v @ t \<in> set (rmatch a (u @ v @ t))" by (rule m_Seq.IH(1))
  moreover have "t \<in> set (rmatch b (v @ t))" by (rule m_Seq.IH(2))
  ultimately show ?case by auto
next
  case (m_AltL a u b)
  then show ?case by simp
next
  case (m_AltR b u a)
  then show ?case by simp
next
  case (m_StarNil a)
  then show ?case by (simp add: rmatch_Star_unfold[of a t])
next
  case (m_StarStep a u v)
  show ?case
  proof (cases "u = []")
    case True
    with m_StarStep.IH(2)[of t] show ?thesis by simp
  next
    case False
    have "v @ t \<in> set (rmatch a (u @ v @ t))" by (rule m_StarStep.IH(1))
    moreover have "length (v @ t) < length (u @ v @ t)" using False by simp
    moreover have "t \<in> set (rmatch (Star a) (v @ t))" by (rule m_StarStep.IH(2))
    ultimately show ?thesis
      unfolding rmatch_Star_unfold[of a "(u @ v) @ t"] by auto
  qed
qed

lemma rmatch_nonempty_iff:
  "rmatch r s \<noteq> [] \<longleftrightarrow> (\<exists>w post. s = w @ post \<and> matches r w)"
proof
  assume "rmatch r s \<noteq> []"
  then obtain t where "t \<in> set (rmatch r s)" by (cases "rmatch r s") auto
  from rmatch_sound[OF this] show "\<exists>w post. s = w @ post \<and> matches r w" by blast
next
  assume "\<exists>w post. s = w @ post \<and> matches r w"
  then obtain w post where "s = w @ post" "matches r w" by blast
  with rmatch_complete[of r w post] show "rmatch r s \<noteq> []" by auto
qed

lemma scan_matches_nonempty:
  "scan_matches m s \<noteq> [] \<longleftrightarrow> (\<exists>i \<le> length s. m (drop i s) \<noteq> [])"
proof (induction s)
  case Nil
  show ?case by (subst scan_matches.simps) (simp split: list.splits)
next
  case (Cons c s)
  show ?case
  proof (cases "m (c # s)")
    case Nil
    have "scan_matches m (c # s) = scan_matches m s"
      by (subst scan_matches.simps) (simp add: Nil)
    moreover have "(\<exists>i \<le> length (c # s). m (drop i (c # s)) \<noteq> [])
        \<longleftrightarrow> (\<exists>i \<le> length s. m (drop i s) \<noteq> [])"
    proof
      assume "\<exists>i \<le> length (c # s). m (drop i (c # s)) \<noteq> []"
      then obtain i where i: "i \<le> length (c # s)" "m (drop i (c # s)) \<noteq> []" by blast
      with Nil obtain j where "i = Suc j" by (cases i) auto
      with i show "\<exists>i \<le> length s. m (drop i s) \<noteq> []" by auto
    next
      assume "\<exists>i \<le> length s. m (drop i s) \<noteq> []"
      then obtain i where "i \<le> length s" "m (drop i s) \<noteq> []" by blast
      then have "Suc i \<le> length (c # s)" "m (drop (Suc i) (c # s)) \<noteq> []" by auto
      then show "\<exists>i \<le> length (c # s). m (drop i (c # s)) \<noteq> []" by blast
    qed
    ultimately show ?thesis using Cons.IH by simp
  next
    case (Cons x xs)
    have "scan_matches m (c # s) \<noteq> []"
      by (subst scan_matches.simps) (simp add: Cons split: prod.splits)
    moreover have "m (drop 0 (c # s)) \<noteq> []" using Cons by simp
    then have "\<exists>i \<le> length (c # s). m (drop i (c # s)) \<noteq> []" by blast
    ultimately show ?thesis by simp
  qed
qed

lemma match_g_nonempty:
  "match_g r s \<noteq> [] \<longleftrightarrow> (\<exists>pre w post. s = pre @ w @ post \<and> matches r w)"
proof -
  have "match_g r s \<noteq> [] \<longleftrightarrow> (\<exists>i \<le> length s. rmatch r (drop i s) \<noteq> [])"
    by (simp add: match_g_def scan_matches_nonempty)
  also have "\<dots> \<longleftrightarrow> (\<exists>pre w post. s = pre @ w @ post \<and> matches r w)"
  proof
    assume "\<exists>i \<le> length s. rmatch r (drop i s) \<noteq> []"
    then obtain i w post where "drop i s = w @ post" "matches r w"
      unfolding rmatch_nonempty_iff by blast
    then have "s = take i s @ w @ post" "matches r w"
      by (metis append_take_drop_id)+
    then show "\<exists>pre w post. s = pre @ w @ post \<and> matches r w" by blast
  next
    assume "\<exists>pre w post. s = pre @ w @ post \<and> matches r w"
    then obtain pre w post where s: "s = pre @ w @ post" and m: "matches r w" by blast
    have "length pre \<le> length s" "drop (length pre) s = w @ post" using s by simp_all
    with m show "\<exists>i \<le> length s. rmatch r (drop i s) \<noteq> []"
      unfolding rmatch_nonempty_iff by blast
  qed
  finally show ?thesis .
qed


lemma eq_ignore_case_append:
  "eq_ignore_case w (x @ y) \<longleftrightarrow> (\<exists>a b. w = a @ b \<and> eq_ignore_case a x \<and> eq_ignore_case b y)"
proof
  assume "eq_ignore_case w (x @ y)"
  then have m: "map canonicalize w = map canonicalize x @ map canonicalize y"
    by (simp add: eq_ignore_case_def)
  then have "map canonicalize (take (length x) w) = map canonicalize x"
    "map canonicalize (drop (length x) w) = map canonicalize y"
    by (simp_all add: take_map[symmetric] drop_map[symmetric])
  then have "w = take (length x) w @ drop (length x) w
      \<and> eq_ignore_case (take (length x) w) x \<and> eq_ignore_case (drop (length x) w) y"
    by (simp add: eq_ignore_case_def)
  then show "\<exists>a b. w = a @ b \<and> eq_ignore_case a x \<and> eq_ignore_case b y" by blast
next
  assume "\<exists>a b. w = a @ b \<and> eq_ignore_case a x \<and> eq_ignore_case b y"
  then show "eq_ignore_case w (x @ y)" by (auto simp: eq_ignore_case_def)
qed

lemma eq_ignore_case_Nil: "eq_ignore_case w [] \<longleftrightarrow> w = []"
  by (simp add: eq_ignore_case_def)

section \<open>Properties of the rule no-external-urls\<close>

lemma scheme_split:
  "(\<exists>h s c. scheme = h @ s @ c \<and> eq_ignore_case h ''http''
      \<and> (eq_ignore_case s ''s'' \<or> s = []) \<and> eq_ignore_case c ''://'')
   \<longleftrightarrow> eq_ignore_case scheme ''http://'' \<or> eq_ignore_case scheme ''https://''"
proof -
  have a: "eq_ignore_case scheme ''http://''
      \<longleftrightarrow> (\<exists>h c. scheme = h @ [] @ c \<and> eq_ignore_case h ''http'' \<and> eq_ignore_case c ''://'')"
    using eq_ignore_case_append[of scheme "''http''" "''://''"] by simp
  have b: "eq_ignore_case scheme ''https://''
      \<longleftrightarrow> (\<exists>h s c. scheme = h @ s @ c \<and> eq_ignore_case h ''http'' \<and> eq_ignore_case s ''s''
            \<and> eq_ignore_case c ''://'')"
  proof -
    have "eq_ignore_case scheme (''http'' @ (''s'' @ ''://''))
      \<longleftrightarrow> (\<exists>h r. scheme = h @ r \<and> eq_ignore_case h ''http'' \<and> eq_ignore_case r (''s'' @ ''://''))"
      by (rule eq_ignore_case_append)
    also have "\<dots> \<longleftrightarrow> (\<exists>h s c. scheme = h @ s @ c \<and> eq_ignore_case h ''http''
            \<and> eq_ignore_case s ''s'' \<and> eq_ignore_case c ''://'')"
      unfolding eq_ignore_case_append[of _ "''s''" "''://''"] by blast
    finally show ?thesis by simp
  qed
  show ?thesis unfolding a b by blast
qed

lemma seqs_intro:
  "matches r u \<Longrightarrow> matches (seqs rs) v \<Longrightarrow> matches (seqs (r # rs)) (u @ v)"
  by (simp add: m_Seq)

lemma seqs_nil: "matches (seqs []) []"
  by (simp add: m_Eps)

lemma matches_urlPattern: "matches urlPattern w \<longleftrightarrow> external_reference w"
proof
  assume "matches urlPattern w"
  then have "\<exists>kw s1 x s2 q h s c.
       w = kw @ s1 @ x @ s2 @ q @ h @ s @ c
       \<and> (eq_ignore_case kw ''src'' \<or> eq_ignore_case kw ''href'' \<or> eq_ignore_case kw ''url'')
       \<and> list_all is_space s1
       \<and> (\<exists>sep \<in> set ''=(''. x = [sep])
       \<and> list_all is_space s2
       \<and> ((\<exists>qc \<in> set [CHR 0x27, CHR 0x22]. q = [qc]) \<or> q = [])
       \<and> eq_ignore_case h ''http''
       \<and> (eq_ignore_case s ''s'' \<or> s = [])
       \<and> eq_ignore_case c ''://''"
    unfolding urlPattern_def ws_def matches_seqs_Cons matches_seqs_Nil matches_Alt_iff
      matches_Opt_iff matches_lit_i matches_Star_Atom matches_one_of
    apply (elim exE conjE)
    apply (simp only: append_Nil2)
    apply blast
    done
  then obtain kw s1 x s2 q h s c where w: "w = kw @ s1 @ x @ s2 @ q @ h @ s @ c"
    and kw: "eq_ignore_case kw ''src'' \<or> eq_ignore_case kw ''href'' \<or> eq_ignore_case kw ''url''"
    and s1: "list_all is_space s1" and x: "\<exists>sep \<in> set ''=(''. x = [sep]"
    and s2: "list_all is_space s2"
    and q: "(\<exists>qc \<in> set [CHR 0x27, CHR 0x22]. q = [qc]) \<or> q = []"
    and h: "eq_ignore_case h ''http''" and s: "eq_ignore_case s ''s'' \<or> s = []"
    and c: "eq_ignore_case c ''://''"
    by blast
  from x obtain sep where sep: "x = [sep]" "sep = CHR ''='' \<or> sep = CHR ''(''" by auto
  from q have q': "q = [] \<or> q = [CHR 0x27] \<or> q = [CHR 0x22]" by auto
  from h s c have "eq_ignore_case (h @ s @ c) ''http://'' \<or> eq_ignore_case (h @ s @ c) ''https://''"
    unfolding scheme_split[symmetric] by blast
  with w kw s1 sep s2 q' have "w = kw @ s1 @ [sep] @ s2 @ q @ (h @ s @ c)
        \<and> (eq_ignore_case kw ''src'' \<or> eq_ignore_case kw ''href'' \<or> eq_ignore_case kw ''url'')
        \<and> list_all is_space s1
        \<and> (sep = CHR ''='' \<or> sep = CHR ''('')
        \<and> list_all is_space s2
        \<and> (q = [] \<or> q = [CHR 0x27] \<or> q = [CHR 0x22])
        \<and> (eq_ignore_case (h @ s @ c) ''http://'' \<or> eq_ignore_case (h @ s @ c) ''https://'')"
    by simp
  then show "external_reference w" unfolding external_reference_def by blast
next
  assume "external_reference w"
  then obtain kw s1 sep s2 q scheme where w: "w = kw @ s1 @ [sep] @ s2 @ q @ scheme"
    and kw: "eq_ignore_case kw ''src'' \<or> eq_ignore_case kw ''href'' \<or> eq_ignore_case kw ''url''"
    and s1: "list_all is_space s1" and sep: "sep = CHR ''='' \<or> sep = CHR ''(''"
    and s2: "list_all is_space s2" and q: "q = [] \<or> q = [CHR 0x27] \<or> q = [CHR 0x22]"
    and scheme: "eq_ignore_case scheme ''http://'' \<or> eq_ignore_case scheme ''https://''"
    unfolding external_reference_def by blast
  from scheme obtain h s c where sch: "scheme = h @ s @ c" and h: "eq_ignore_case h ''http''"
    and s: "eq_ignore_case s ''s'' \<or> s = []" and c: "eq_ignore_case c ''://''"
    unfolding scheme_split[symmetric] by blast
  have m1: "matches (Alt (lit_i ''src'') (Alt (lit_i ''href'') (lit_i ''url''))) kw"
    using kw by (simp only: matches_Alt_iff matches_lit_i)
  have m2: "matches ws s1" using s1 by (simp add: ws_def matches_Star_Atom)
  have m3: "matches (one_of ''=('') [sep]" using sep by (auto simp: matches_one_of)
  have m4: "matches ws s2" using s2 by (simp add: ws_def matches_Star_Atom)
  have m5: "matches (Opt (one_of [CHR 0x27, CHR 0x22])) q"
    using q by (auto simp: matches_Opt_iff matches_one_of)
  have m6: "matches (lit_i ''http'') h" using h by (simp only: matches_lit_i)
  have m7: "matches (Opt (lit_i ''s'')) s" using s by (simp only: matches_Opt_iff matches_lit_i)
  have m8: "matches (lit_i ''://'') c" using c by (simp only: matches_lit_i)
  have "matches urlPattern (kw @ s1 @ [sep] @ s2 @ q @ h @ s @ c @ [])"
    unfolding urlPattern_def
    by (intro seqs_intro seqs_nil m1 m2 m3 m4 m5 m6 m7 m8)
  then show "matches urlPattern w" using w sch by simp
qed

text \<open>
  C10, as amended. The rule passes exactly when the text contains no external
  reference in the sense of \<open>external_reference\<close>: the keyword and the scheme in any
  letter case, either separator after any of the three keywords, white space allowed
  around the separator. A scheme that occurs elsewhere, for example in visible text
  with no such introduction before it, does not fail the rule.
\<close>

theorem no_external_urls_passed_iff:
  "passed (check_no_external_urls html n)
     \<longleftrightarrow> \<not> (\<exists>pre w post. html = pre @ w @ post \<and> external_reference w)"
proof -
  have "passed (check_no_external_urls html n) \<longleftrightarrow> \<not> (match_g urlPattern html \<noteq> [])"
    by (auto simp: check_no_external_urls_def Let_def)
  also have "\<dots> \<longleftrightarrow> \<not> (\<exists>pre w post. html = pre @ w @ post \<and> matches urlPattern w)"
    by (simp only: match_g_nonempty)
  finally show ?thesis by (simp only: matches_urlPattern)
qed

text \<open>
  C10 as stated fails: the visible text \<open>url=http://a.io\<close> holds none of the reference
  positions the claim lists, and the rule fails on it.
\<close>

theorem no_external_urls_counterexample:
  "\<not> has_claimed_reference ''<p>url=http://a.io</p>''
   \<and> \<not> passed (check_no_external_urls ''<p>url=http://a.io</p>'' 1)"
  by code_simp

section \<open>Properties of the QA review loop\<close>

lemma same_frame_refl: "same_frame st st"
  by (simp add: same_frame_def)

lemma same_frame_trans: "same_frame a b \<Longrightarrow> same_frame b c \<Longrightarrow> same_frame a c"
  by (simp add: same_frame_def)

lemma same_frame_say: "same_frame st (say es st)"
  by (simp add: same_frame_def say_def)

lemma same_frame_tokens: "same_frame st (add_tokens u st)"
  by (simp add: same_frame_def add_tokens_def)

lemma store_slides_frame:
  "store_slides env slides st w = ((err, st'), w') \<Longrightarrow> same_frame st st'"
proof (induction slides arbitrary: st w)
  case Nil
  then show ?case by (simp add: same_frame_def)
next
  case (Cons slide rest)
  obtain b w1 where b: "buildSlideHtml env (dev_html slide) (series (options (ctx st))) w = (b, w1)"
    by (cases "buildSlideHtml env (dev_html slide) (series (options (ctx st))) w")
  show ?case
  proof (cases b)
    case (Inl e)
    with Cons.prems b show ?thesis by (simp add: same_frame_def)
  next
    case (Inr built)
    let ?st1 = "st\<lparr>ctx := (ctx st)\<lparr>htmlSlides :=
                        AList.update (dev_slideNumber slide) built (htmlSlides (ctx st))\<rparr>\<rparr>"
    have f1: "same_frame st ?st1" by (simp add: same_frame_def)
    obtain x w2 where x: "writeOutputFile env
        (slidesDir_of ?st1 @ ''/slide-'' @ padStart2 (show_int (dev_slideNumber slide)) @ ''.html'')
        built w1 = (x, w2)"
      by (cases "writeOutputFile env
        (slidesDir_of ?st1 @ ''/slide-'' @ padStart2 (show_int (dev_slideNumber slide)) @ ''.html'')
        built w1")
    show ?thesis
    proof (cases x)
      case (Inl e)
      with Cons.prems b Inr x have "st' = ?st1" by (simp add: Let_def)
      with f1 show ?thesis by simp
    next
      case (Inr u)
      with Cons.prems b \<open>b = Inr built\<close> x
      have "store_slides env rest ?st1 w2 = ((err, st'), w')" by (simp add: Let_def)
      from Cons.IH[OF this] f1 show ?thesis by (rule same_frame_trans[rotated])
    qed
  qed
qed

lemma store_slides_ok:
  assumes "never_fails env"
  shows "\<exists>st' w'. store_slides env slides st w = ((None, st'), w')"
proof (induction slides arbitrary: st w)
  case Nil
  then show ?case by simp
next
  case (Cons slide rest)
  from assms obtain built w1 where
    b: "buildSlideHtml env (dev_html slide) (series (options (ctx st))) w = (Inr built, w1)"
    unfolding never_fails_def by blast
  let ?st1 = "st\<lparr>ctx := (ctx st)\<lparr>htmlSlides :=
                        AList.update (dev_slideNumber slide) built (htmlSlides (ctx st))\<rparr>\<rparr>"
  from assms obtain w2 where x: "writeOutputFile env
        (slidesDir_of ?st1 @ ''/slide-'' @ padStart2 (show_int (dev_slideNumber slide)) @ ''.html'')
        built w1 = (Inr (), w2)"
    unfolding never_fails_def by blast
  from Cons.IH[of ?st1 w2] b x show ?case by (simp add: Let_def)
qed

lemma review_step_calls:
  assumes "review_step env maxQaLoops n st w = ((err, st2), w2)"
  shows "calls st2 = calls st @ [ReviewCall] \<and> options (ctx st2) = options (ctx st)"
  using assms
  by (auto simp: review_step_def Let_def say_def called_def add_tokens_def
           split: prod.splits sum.splits)

lemma review_step_report:
  assumes "review_step env maxQaLoops n st w = ((None, st2), w2)"
  shows "\<exists>c pm r w1. qaReviewer_run env c pm w = (Inr r, w1)
                      \<and> qaReport (ctx st2) = Some (agent_output r)"
proof -
  let ?st1 = "say [Info (''QA iteration '' @ show_int n @ ''/'' @ show_int maxQaLoops)]
                  (st\<lparr>ctx := (ctx st)\<lparr>qaIteration := n\<rparr>\<rparr>)"
  obtain x w1 where x: "qaReviewer_run env (ctx ?st1) (model (options (ctx ?st1))) w = (x, w1)"
    by (cases "qaReviewer_run env (ctx ?st1) (model (options (ctx ?st1))) w")
  show ?thesis
  proof (cases x)
    case (Inl e)
    with assms x show ?thesis by (simp add: review_step_def Let_def)
  next
    case (Inr r)
    let ?st2 = "add_tokens (tokensUsed r)
                ((called ReviewCall ?st1)\<lparr>ctx := (ctx ?st1)\<lparr>qaReport := Some (agent_output r)\<rparr>\<rparr>)"
    have q: "qaReport (ctx ?st2) = Some (agent_output r)"
      by (simp add: add_tokens_def)
    have "st2 = ?st2"
      using assms x Inr
      by (auto simp: review_step_def Let_def split: prod.splits sum.splits)
    with q x Inr show ?thesis by blast
  qed
qed

lemma review_step_ok:
  assumes "never_fails env"
  shows "\<exists>st2 w2. review_step env maxQaLoops n st w = ((None, st2), w2)"
proof -
  let ?st1 = "say [Info (''QA iteration '' @ show_int n @ ''/'' @ show_int maxQaLoops)]
                  (st\<lparr>ctx := (ctx st)\<lparr>qaIteration := n\<rparr>\<rparr>)"
  from assms obtain r w1 where
    r: "qaReviewer_run env (ctx ?st1) (model (options (ctx ?st1))) w = (Inr r, w1)"
    unfolding never_fails_def by blast
  let ?st2 = "add_tokens (tokensUsed r)
                ((called ReviewCall ?st1)\<lparr>ctx := (ctx ?st1)\<lparr>qaReport := Some (agent_output r)\<rparr>\<rparr>)"
  from assms obtain w2 where
    j: "writeJsonFile env (outputDir (options (ctx ?st2)) @ ''/qa-report.json'')
          (agent_output r) w1 = (Inr (), w2)"
    unfolding never_fails_def by blast
  have "review_step env maxQaLoops n st w = ((None, ?st2), w2)"
    unfolding review_step_def Let_def using r j by simp
  then show ?thesis by blast
qed

lemma fix_step_calls:
  assumes "fix_step env st w = ((err, st2), w2)"
  shows "calls st2 = calls st @ [DeveloperCall] \<and> options (ctx st2) = options (ctx st)
         \<and> qaReport (ctx st2) = qaReport (ctx st)"
proof -
  let ?st1 = "say [Step ''Developer fix pass''] st"
  obtain d w1 where d: "developer_run env (ctx ?st1) (model (options (ctx ?st1))) w = (d, w1)"
    by (cases "developer_run env (ctx ?st1) (model (options (ctx ?st1))) w")
  show ?thesis
  proof (cases d)
    case (Inl e)
    with assms d have "st2 = called DeveloperCall ?st1"
      by (simp add: fix_step_def Let_def)
    then show ?thesis by (simp add: called_def say_def)
  next
    case (Inr fixResult)
    let ?st1' = "add_tokens (tokensUsed fixResult) (called DeveloperCall ?st1)"
    obtain e3 st3 w3 where s: "store_slides env (dev_slides (agent_output fixResult)) ?st1' w1
        = ((e3, st3), w3)"
      by (metis prod.exhaust)
    from store_slides_frame[OF s] have f: "same_frame ?st1' st3" .
    have g: "calls ?st1' = calls st @ [DeveloperCall]" "options (ctx ?st1') = options (ctx st)"
      "qaReport (ctx ?st1') = qaReport (ctx st)"
      by (simp_all add: called_def say_def add_tokens_def)
    from assms d Inr s have "st2 = st3 \<or> st2 = say [Success ''Fixes applied''] st3"
      by (cases e3) (auto simp: fix_step_def Let_def)
    with f g show ?thesis by (auto simp: same_frame_def say_def)
  qed
qed

lemma fix_step_ok:
  assumes "never_fails env"
  shows "\<exists>st2 w2. fix_step env st w = ((None, st2), w2)"
proof -
  let ?st1 = "say [Step ''Developer fix pass''] st"
  from assms obtain fixResult w1 where
    d: "developer_run env (ctx ?st1) (model (options (ctx ?st1))) w = (Inr fixResult, w1)"
    unfolding never_fails_def by blast
  from store_slides_ok[OF assms] obtain st3 w3 where
    "store_slides env (dev_slides (agent_output fixResult))
       (add_tokens (tokensUsed fixResult) (called DeveloperCall ?st1)) w1 = ((None, st3), w3)"
    by blast
  with d show ?thesis by (simp add: fix_step_def Let_def)
qed

lemma qa_iteration_unfold:
  assumes "review_step env maxQaLoops n st w = ((None, st2), w2)"
    and "qaReport (ctx st2) = Some report"
  shows "qa_iteration env maxQaLoops n st w =
     (if overallVerdict report = Pass \<or> \<not> hasBlockingIssues (ctx st2)
      then (Break (say [Success ''QA passed - no blocking issues.''] st2), w2)
      else if n < maxQaLoops
      then (case fix_step env (say [warn_entry maxQaLoops n report] st2) w2 of
              ((Some e, st4), w3) \<Rightarrow> (Thrown e st4, w3)
            | ((None, st4), w3) \<Rightarrow> (Continue st4, w3))
      else (Continue (say [warn_entry maxQaLoops n report] st2), w2))"
  using assms by (simp add: qa_iteration_def Let_def warn_entry_def)

lemma qa_iteration_calls:
  assumes "qa_iteration env maxQaLoops n st w = (c, w')"
  shows "\<exists>cs. calls (ctl_state c) = calls st @ ReviewCall # cs
              \<and> (cs = [] \<or> (cs = [DeveloperCall] \<and> n < maxQaLoops))
              \<and> options (ctx (ctl_state c)) = options (ctx st)"
proof -
  obtain e st2 w2 where r: "review_step env maxQaLoops n st w = ((e, st2), w2)"
    by (metis prod.exhaust)
  note rc = review_step_calls[OF r]
  show ?thesis
  proof (cases e)
    case (Some err)
    with assms r have "c = Thrown err st2" by (simp add: qa_iteration_def)
    with rc show ?thesis by simp
  next
    case None
    note r' = r[unfolded None]
    show ?thesis
    proof (cases "qaReport (ctx st2)")
      case None
      with assms r' have "c = Thrown TypeError st2" by (simp add: qa_iteration_def)
      with rc show ?thesis by simp
    next
      case (Some report)
      note u = qa_iteration_unfold[OF r' Some]
      let ?st3 = "say [warn_entry maxQaLoops n report] st2"
      consider (passing) "overallVerdict report = Pass \<or> \<not> hasBlockingIssues (ctx st2)"
        | (fixing) "\<not> (overallVerdict report = Pass \<or> \<not> hasBlockingIssues (ctx st2))"
                "n < maxQaLoops"
        | (bound) "\<not> (overallVerdict report = Pass \<or> \<not> hasBlockingIssues (ctx st2))"
                "\<not> n < maxQaLoops"
        by blast
      then show ?thesis
      proof cases
        case passing
        with assms u have "c = Break (say [Success ''QA passed - no blocking issues.''] st2)"
          by simp
        with rc show ?thesis by (simp add: say_def)
      next
        case fixing
        obtain e4 st4 w3 where f: "fix_step env ?st3 w2 = ((e4, st4), w3)"
          by (metis prod.exhaust)
        from fix_step_calls[OF f] rc
        have c4: "calls st4 = calls st @ ReviewCall # [DeveloperCall]"
          "options (ctx st4) = options (ctx st)"
          by (simp_all add: say_def)
        from assms u fixing f have "ctl_state c = st4"
          by (cases e4) auto
        with c4 fixing(2) show ?thesis by simp
      next
        case bound
        with assms u have "c = Continue ?st3" by simp
        with rc show ?thesis by (simp add: say_def)
      qed
    qed
  qed
qed

lemma qa_loop_calls:
  assumes "qa_loop env M q st w = ((err, n, st'), w')"
  shows "\<exists>cs. calls st' = calls st @ cs
              \<and> int (count_list cs ReviewCall) \<le> max 0 (M - q)
              \<and> int (count_list cs DeveloperCall) \<le> max 0 (M - q - 1)
              \<and> count_list cs RenderCall = 0
              \<and> options (ctx st') = options (ctx st)"
  using assms
proof (induction "nat (M - q)" arbitrary: q st w)
  case 0
  then have "\<not> q < M" by simp
  with "0.prems" have "st' = st" by (simp add: qa_loop.simps)
  then show ?case by simp
next
  case (Suc k)
  then have lt: "q < M" by simp
  obtain c w1 where it: "qa_iteration env M (q + 1) st w = (c, w1)"
    by (cases "qa_iteration env M (q + 1) st w")
  from qa_iteration_calls[OF it] obtain cs where
    cs: "calls (ctl_state c) = calls st @ ReviewCall # cs"
        "cs = [] \<or> (cs = [DeveloperCall] \<and> q + 1 < M)"
        "options (ctx (ctl_state c)) = options (ctx st)"
    by blast
  have one: "int (count_list (ReviewCall # cs) ReviewCall) = 1"
    "count_list (ReviewCall # cs) RenderCall = 0"
    "int (count_list (ReviewCall # cs) DeveloperCall) \<le> max 0 (M - q - 1)"
    "cs \<noteq> [] \<longrightarrow> q + 1 < M"
    "int (count_list (ReviewCall # cs) DeveloperCall) = (if cs = [] then 0 else 1)"
    using cs(2) lt by auto
  show ?case
  proof (cases c)
    case (Thrown e s)
    with Suc.prems lt it have "st' = s" by (simp add: qa_loop.simps)
    with cs Thrown one lt show ?thesis by auto
  next
    case (Break s)
    with Suc.prems lt it have "st' = s" by (simp add: qa_loop.simps)
    with cs Break one lt show ?thesis by auto
  next
    case (Continue s)
    with Suc.prems lt it have rec: "qa_loop env M (q + 1) s w1 = ((err, n, st'), w')"
      by (simp add: qa_loop.simps)
    have k: "k = nat (M - (q + 1))" using Suc.hyps(2) by simp
    from Suc.hyps(1)[OF k rec] obtain cs' where
      cs': "calls st' = calls s @ cs'"
           "int (count_list cs' ReviewCall) \<le> max 0 (M - (q + 1))"
           "int (count_list cs' DeveloperCall) \<le> max 0 (M - (q + 1) - 1)"
           "count_list cs' RenderCall = 0"
           "options (ctx st') = options (ctx s)"
      by blast
    let ?all = "(ReviewCall # cs) @ cs'"
    have a: "calls st' = calls st @ ?all" using cs(1) cs'(1) Continue by simp
    have b: "int (count_list ?all ReviewCall) \<le> max 0 (M - q)"
      using one(1) cs'(2) lt by simp
    have d: "int (count_list ?all DeveloperCall) \<le> max 0 (M - q - 1)"
    proof (cases "cs = []")
      case True
      with cs'(3) show ?thesis by simp
    next
      case False
      with one(4) have "q + 1 < M" by simp
      with one(5) False cs'(3) show ?thesis by simp
    qed
    have e: "count_list ?all RenderCall = 0" using one(2) cs'(4) by simp
    have f: "options (ctx st') = options (ctx st)" using cs(3) cs'(5) Continue by simp
    from a b d e f show ?thesis by blast
  qed
qed

lemma qa_iteration_never_fails:
  assumes "never_fails env" and "qa_iteration env M n st w = (c, w')"
  shows "\<exists>s. c = Break s \<or> c = Continue s"
proof -
  from review_step_ok[OF assms(1)] obtain st2 w2 where
    r: "review_step env M n st w = ((None, st2), w2)" by blast
  from review_step_report[OF r] obtain report where q: "qaReport (ctx st2) = Some report"
    by blast
  note u = qa_iteration_unfold[OF r q]
  from fix_step_ok[OF assms(1)] obtain st4 w3 where
    f: "fix_step env (say [warn_entry M n report] st2) w2 = ((None, st4), w3)" by blast
  from assms(2) u f show ?thesis by (auto split: if_splits)
qed

lemma qa_loop_never_fails:
  assumes "never_fails env" and "qa_loop env M q st w = ((err, n, st'), w')"
  shows "err = None"
  using assms(2)
proof (induction "nat (M - q)" arbitrary: q st w)
  case 0
  then have "\<not> q < M" by simp
  with "0.prems" show ?case by (simp add: qa_loop.simps)
next
  case (Suc k)
  then have lt: "q < M" by simp
  obtain c w1 where it: "qa_iteration env M (q + 1) st w = (c, w1)"
    by (cases "qa_iteration env M (q + 1) st w")
  from qa_iteration_never_fails[OF assms(1) it] obtain s where
    s: "c = Break s \<or> c = Continue s" by blast
  have k: "k = nat (M - (q + 1))" using Suc.hyps(2) by simp
  from s show ?case
  proof
    assume "c = Break s"
    with Suc.prems lt it show ?thesis by (simp add: qa_loop.simps)
  next
    assume "c = Continue s"
    with Suc.prems lt it have "qa_loop env M (q + 1) s w1 = ((err, n, st'), w')"
      by (simp add: qa_loop.simps)
    from Suc.hyps(1)[OF k this] show ?thesis .
  qed
qed

lemma qa_iteration_never_passes:
  assumes "never_fails env" and "never_passes env"
    and "qa_iteration env M n st w = (c, w')"
  shows "\<exists>s report. c = Continue s \<and> qaReport (ctx s) = Some report
           \<and> overallVerdict report = NeedsRevision
           \<and> calls s = calls st @ ReviewCall # (if n < M then [DeveloperCall] else [])"
proof -
  from review_step_ok[OF assms(1)] obtain st2 w2 where
    r: "review_step env M n st w = ((None, st2), w2)" by blast
  from review_step_report[OF r] obtain cx pm res w1 where
    res: "qaReviewer_run env cx pm w = (Inr res, w1)"
         "qaReport (ctx st2) = Some (agent_output res)"
    by blast
  let ?report = "agent_output res"
  from assms(2) res(1) have np: "overallVerdict ?report = NeedsRevision"
    "\<exists>i \<in> set (issues ?report). severity i = High \<or> severity i = Medium"
    unfolding never_passes_def by blast+
  from np(2) res(2) have blocking: "hasBlockingIssues (ctx st2)"
    by (simp add: hasBlockingIssues_def list_ex_iff)
  from np(1) blocking
  have cond: "\<not> (overallVerdict ?report = Pass \<or> \<not> hasBlockingIssues (ctx st2))" by simp
  note u = qa_iteration_unfold[OF r res(2)]
  note rc = review_step_calls[OF r]
  let ?st3 = "say [warn_entry M n ?report] st2"
  show ?thesis
  proof (cases "n < M")
    case True
    from fix_step_ok[OF assms(1)] obtain st4 w3 where
      f: "fix_step env ?st3 w2 = ((None, st4), w3)" by blast
    from fix_step_calls[OF f] rc res(2)
    have "calls st4 = calls st @ ReviewCall # [DeveloperCall]"
      "qaReport (ctx st4) = Some ?report"
      by (simp_all add: say_def)
    moreover from assms(3) u cond True f have "c = Continue st4" by simp
    ultimately show ?thesis using np(1) True by simp
  next
    case False
    with assms(3) u cond have "c = Continue ?st3" by simp
    moreover have "calls ?st3 = calls st @ [ReviewCall]" "qaReport (ctx ?st3) = Some ?report"
      using rc res(2) by (simp_all add: say_def)
    ultimately show ?thesis using np(1) False by simp
  qed
qed

lemma qa_loop_never_passes:
  assumes "never_fails env" and "never_passes env"
    and "qa_loop env M q st w = ((err, n, st'), w')" and "q < M"
  shows "n = M
         \<and> (\<exists>cs. calls st' = calls st @ cs
                \<and> int (count_list cs ReviewCall) = M - q
                \<and> int (count_list cs DeveloperCall) = M - q - 1)
         \<and> (\<exists>report. qaReport (ctx st') = Some report \<and> overallVerdict report = NeedsRevision)"
  using assms(3,4)
proof (induction "nat (M - q)" arbitrary: q st w)
  case 0
  then show ?case by simp
next
  case (Suc k)
  note lt = \<open>q < M\<close>
  obtain c w1 where it: "qa_iteration env M (q + 1) st w = (c, w1)"
    by (cases "qa_iteration env M (q + 1) st w")
  from qa_iteration_never_passes[OF assms(1,2) it] obtain s report where
    s: "c = Continue s" "qaReport (ctx s) = Some report" "overallVerdict report = NeedsRevision"
       "calls s = calls st @ ReviewCall # (if q + 1 < M then [DeveloperCall] else [])"
    by blast
  from Suc.prems(1) lt it s(1) have rec: "qa_loop env M (q + 1) s w1 = ((err, n, st'), w')"
    by (simp add: qa_loop.simps)
  show ?case
  proof (cases "q + 1 < M")
    case True
    have k: "k = nat (M - (q + 1))" using Suc.hyps(2) by simp
    from Suc.hyps(1)[OF k rec True] obtain cs where
      n: "n = M" and cs: "calls st' = calls s @ cs"
        "int (count_list cs ReviewCall) = M - (q + 1)"
        "int (count_list cs DeveloperCall) = M - (q + 1) - 1"
      and rep: "\<exists>report. qaReport (ctx st') = Some report \<and> overallVerdict report = NeedsRevision"
      by blast
    let ?all = "ReviewCall # DeveloperCall # cs"
    have "calls st' = calls st @ ?all" using s(4) cs(1) True by simp
    moreover have "int (count_list ?all ReviewCall) = M - q" using cs(2) by simp
    moreover have "int (count_list ?all DeveloperCall) = M - q - 1" using cs(3) by simp
    ultimately show ?thesis using n rep by blast
  next
    case False
    with lt have eq: "q + 1 = M" by simp
    from rec False have "n = q + 1" "st' = s" by (simp_all add: qa_loop.simps)
    moreover have "calls s = calls st @ [ReviewCall]" using s(4) False by simp
    moreover have "int (count_list [ReviewCall] ReviewCall) = M - q"
      "int (count_list [ReviewCall] DeveloperCall) = M - q - 1"
      using eq by simp_all
    ultimately show ?thesis using s(2,3) eq by blast
  qed
qed

lemma rethrow_result:
  assumes "rethrow env e st w = ((err, st'), w')"
  shows "st' = st \<and> err \<noteq> None"
  using assms by (auto simp: rethrow_def split: prod.splits sum.splits)

text \<open>
  C1. For a positive \<open>maxQaLoops\<close>, whatever the collaborators answer, the run from the
  review loop on calls the reviewer at most \<open>maxQaLoops\<close> times and the developer at
  most \<open>maxQaLoops\<close> times. When no collaborator throws, the run does not abort and
  renders once, whatever the verdicts were. When moreover no review passes, the
  reviewer is called exactly \<open>maxQaLoops\<close> times, the developer one time less, and the
  warning about unresolved issues is logged.
\<close>

theorem qa_loop_bounded:
  assumes "0 < maxQaLoops"
    and "runPipeline_stage6 env maxQaLoops st w = ((err, st'), w')"
  shows "\<exists>cs. calls st' = calls st @ cs
     \<and> int (count_list cs ReviewCall) \<le> maxQaLoops
     \<and> int (count_list cs DeveloperCall) \<le> maxQaLoops
     \<and> (never_fails env \<longrightarrow> err = None \<and> count_list cs RenderCall = 1)
     \<and> (never_fails env \<and> never_passes env \<longrightarrow>
          int (count_list cs ReviewCall) = maxQaLoops
          \<and> int (count_list cs DeveloperCall) = maxQaLoops - 1
          \<and> unresolved_warning \<in> set (logged st'))"
proof -
  let ?st0 = "say [Step ''Stage 6/6: QA Review''] st"
  obtain e n st1 w1 where loop: "qa_loop env maxQaLoops 0 ?st0 w = ((e, n, st1), w1)"
    by (metis prod.exhaust)
  from qa_loop_calls[OF loop] obtain cs where
    cs: "calls st1 = calls st @ cs"
        "int (count_list cs ReviewCall) \<le> maxQaLoops"
        "int (count_list cs DeveloperCall) \<le> maxQaLoops"
        "count_list cs RenderCall = 0"
    using assms(1) by (auto simp: say_def)
  have nf: "e = None" if "never_fails env"
    using qa_loop_never_fails[OF that loop] .
  have np: "int (count_list cs ReviewCall) = maxQaLoops
            \<and> int (count_list cs DeveloperCall) = maxQaLoops - 1
            \<and> (\<exists>report. qaReport (ctx st1) = Some report
                  \<and> overallVerdict report = NeedsRevision)"
    if "never_fails env" "never_passes env"
  proof -
    from qa_loop_never_passes[OF that loop assms(1)] obtain cs' where
      "calls st1 = calls ?st0 @ cs'" "int (count_list cs' ReviewCall) = maxQaLoops - 0"
      "int (count_list cs' DeveloperCall) = maxQaLoops - 0 - 1"
      "\<exists>report. qaReport (ctx st1) = Some report \<and> overallVerdict report = NeedsRevision"
      by blast
    moreover from this(1) cs(1) have "cs' = cs" by (simp add: say_def)
    ultimately show ?thesis by simp
  qed
  show ?thesis
  proof (cases e)
    case (Some e1)
    with assms(2) loop have "rethrow env e1 st1 w1 = ((err, st'), w')"
      by (simp add: runPipeline_stage6_def)
    from rethrow_result[OF this] have "st' = st1" by simp
    moreover from Some nf have "\<not> never_fails env" by auto
    ultimately show ?thesis using cs by auto
  next
    case None
    let ?st2 = "say [Step ''Rendering PNGs''] st1"
    obtain r w2 where
      r: "renderAllSlides env (htmlSlides (ctx ?st2)) (slidesDir_of ?st2) w1 = (r, w2)"
      by (cases "renderAllSlides env (htmlSlides (ctx ?st2)) (slidesDir_of ?st2) w1")
    let ?all = "cs @ [RenderCall]"
    have counts: "int (count_list ?all ReviewCall) = int (count_list cs ReviewCall)"
      "int (count_list ?all DeveloperCall) = int (count_list cs DeveloperCall)"
      "count_list ?all RenderCall = 1"
      using cs(4) by simp_all
    show ?thesis
    proof (cases r)
      case (Inl e2)
      with assms(2) loop None r
      have "rethrow env e2 (called RenderCall ?st2) w2 = ((err, st'), w')"
        by (simp add: runPipeline_stage6_def Let_def)
      from rethrow_result[OF this] have "st' = called RenderCall ?st2" by simp
      then have a: "calls st' = calls st @ ?all" using cs(1) by (simp add: called_def say_def)
      from r Inl have "\<not> never_fails env" unfolding never_fails_def
        by (metis Inl_Inr_False prod.inject)
      with a cs counts show ?thesis by auto
    next
      case (Inr paths)
      let ?st3 = "(called RenderCall ?st2)\<lparr>ctx := (ctx ?st2)\<lparr>pngPaths := paths\<rparr>\<rparr>"
      from assms(2) loop None r Inr
      have res: "err = None" "\<exists>es. st' = say es ?st3
          \<and> (\<forall>report. qaReport (ctx ?st3) = Some report
                \<and> overallVerdict report = NeedsRevision \<longrightarrow> unresolved_warning \<in> set es)"
        by (auto simp: runPipeline_stage6_def Let_def unresolved_warning_def)
      then obtain es where es: "st' = say es ?st3"
        "\<forall>report. qaReport (ctx ?st3) = Some report
            \<and> overallVerdict report = NeedsRevision \<longrightarrow> unresolved_warning \<in> set es"
        by blast
      have a: "calls st' = calls st @ ?all"
        using es(1) cs(1) by (simp add: called_def say_def)
      have q: "qaReport (ctx ?st3) = qaReport (ctx st1)"
        by (simp add: called_def say_def)
      have lg: "set es \<subseteq> set (logged st')" using es(1) by (simp add: say_def)
      have w: "unresolved_warning \<in> set (logged st')"
        if "never_fails env" "never_passes env"
        using np[OF that] es(2) q lg by auto
      from a cs counts res(1) np w show ?thesis by auto
    qed
  qed
qed

lemma example_env_never_fails: "never_fails (example_env sev)"
  by (simp add: never_fails_def example_env_def)

lemma example_env_never_passes: "never_passes (example_env High)"
  by (simp add: never_passes_def example_env_def example_report_def)

theorem qa_loop_bounded_witness:
  "0 < (2::int)
   \<and> never_fails (example_env High) \<and> never_passes (example_env High)
   \<and> fst (fst (runPipeline_stage6 (example_env High) 2 example_state ())) = None
   \<and> (\<exists>cs. calls (snd (fst (runPipeline_stage6 (example_env High) 2 example_state ())))
             = calls example_state @ cs
          \<and> int (count_list cs ReviewCall) = 2
          \<and> int (count_list cs DeveloperCall) = 1
          \<and> count_list cs RenderCall = 1)
   \<and> unresolved_warning
        \<in> set (logged (snd (fst (runPipeline_stage6 (example_env High) 2 example_state ()))))"
proof -
  let ?R = "runPipeline_stage6 (example_env High) 2 example_state ()"
  have pos: "0 < (2::int)" by simp
  have run: "?R = ((fst (fst ?R), snd (fst ?R)), snd ?R)" by (simp add: prod_eq_iff)
  from qa_loop_bounded[OF pos run] example_env_never_fails example_env_never_passes
  show ?thesis by auto
qed

lemma example_run_calls:
  "calls (snd (fst (runPipeline_stage6 (example_env High) 2 example_state ())))
        = [ReviewCall, DeveloperCall, ReviewCall, RenderCall]"
  by code_simp


text \<open>
  C4. In an iteration whose review has been recorded, the loop ends there, with no
  call of the developer, exactly when the verdict of the recorded report is \<open>pass\<close>, or
  the context has no blocking issue, or the iteration is the last one allowed.
  Otherwise the developer fix pass runs and, unless it throws, the loop goes on with
  the next iteration. A verdict \<open>needs_revision\<close> on a report with no blocking issue
  ends the loop.
\<close>

theorem qa_loop_exit_condition:
  assumes "qaLoops < maxQaLoops"
    and "review_step env maxQaLoops (qaLoops + 1) st w = ((None, st2), w2)"
  shows "\<exists>report. qaReport (ctx st2) = Some report
     \<and> (if overallVerdict report = Pass \<or> \<not> hasBlockingIssues (ctx st2)
            \<or> \<not> qaLoops + 1 < maxQaLoops
         then \<exists>st3. qa_loop env maxQaLoops qaLoops st w = ((None, qaLoops + 1, st3), w2)
                    \<and> calls st3 = calls st2 \<and> ctx st3 = ctx st2
         else \<exists>e4 st4 w4.
                fix_step env (say [warn_entry maxQaLoops (qaLoops + 1) report] st2) w2
                  = ((e4, st4), w4)
                \<and> calls st4 = calls st2 @ [DeveloperCall]
                \<and> qa_loop env maxQaLoops qaLoops st w
                    = (case e4 of
                         Some e \<Rightarrow> ((Some e, qaLoops + 1, st4), w4)
                       | None \<Rightarrow> qa_loop env maxQaLoops (qaLoops + 1) st4 w4))"
proof -
  from review_step_report[OF assms(2)] obtain report where
    q: "qaReport (ctx st2) = Some report" by blast
  note u = qa_iteration_unfold[OF assms(2) q]
  let ?n = "qaLoops + 1"
  let ?st3 = "say [warn_entry maxQaLoops ?n report] st2"
  have loop: "qa_loop env maxQaLoops qaLoops st w =
      (case qa_iteration env maxQaLoops ?n st w of
         (Thrown e s, w') \<Rightarrow> ((Some e, ?n, s), w')
       | (Break s, w') \<Rightarrow> ((None, ?n, s), w')
       | (Continue s, w') \<Rightarrow> qa_loop env maxQaLoops ?n s w')"
    using assms(1) by (subst qa_loop.simps) simp
  consider (passing) "overallVerdict report = Pass \<or> \<not> hasBlockingIssues (ctx st2)"
    | (bound) "\<not> (overallVerdict report = Pass \<or> \<not> hasBlockingIssues (ctx st2))"
              "\<not> ?n < maxQaLoops"
    | (fixing) "\<not> (overallVerdict report = Pass \<or> \<not> hasBlockingIssues (ctx st2))"
              "?n < maxQaLoops"
    by blast
  then have "if overallVerdict report = Pass \<or> \<not> hasBlockingIssues (ctx st2)
            \<or> \<not> ?n < maxQaLoops
         then \<exists>st3. qa_loop env maxQaLoops qaLoops st w = ((None, ?n, st3), w2)
                    \<and> calls st3 = calls st2 \<and> ctx st3 = ctx st2
         else \<exists>e4 st4 w4.
                fix_step env ?st3 w2 = ((e4, st4), w4)
                \<and> calls st4 = calls st2 @ [DeveloperCall]
                \<and> qa_loop env maxQaLoops qaLoops st w
                    = (case e4 of
                         Some e \<Rightarrow> ((Some e, ?n, st4), w4)
                       | None \<Rightarrow> qa_loop env maxQaLoops ?n st4 w4)"
  proof cases
    case passing
    let ?s = "say [Success ''QA passed - no blocking issues.''] st2"
    from passing u loop have "qa_loop env maxQaLoops qaLoops st w = ((None, ?n, ?s), w2)"
      by simp
    moreover have "calls ?s = calls st2" "ctx ?s = ctx st2" by (simp_all add: say_def)
    ultimately show ?thesis using passing by auto
  next
    case bound
    from bound u loop
    have "qa_loop env maxQaLoops qaLoops st w = qa_loop env maxQaLoops ?n ?st3 w2"
      by simp
    also have "\<dots> = ((None, ?n, ?st3), w2)"
      using bound(2) by (subst qa_loop.simps) simp
    finally have "qa_loop env maxQaLoops qaLoops st w = ((None, ?n, ?st3), w2)" .
    moreover have "calls ?st3 = calls st2" "ctx ?st3 = ctx st2" by (simp_all add: say_def)
    ultimately show ?thesis using bound by auto
  next
    case fixing
    obtain e4 st4 w4 where f: "fix_step env ?st3 w2 = ((e4, st4), w4)"
      by (metis prod.exhaust)
    from fix_step_calls[OF f] have c: "calls st4 = calls st2 @ [DeveloperCall]"
      by (simp add: say_def)
    from fixing u loop f
    have "qa_loop env maxQaLoops qaLoops st w
            = (case e4 of
                 Some e \<Rightarrow> ((Some e, ?n, st4), w4)
               | None \<Rightarrow> qa_loop env maxQaLoops ?n st4 w4)"
      by (cases e4) simp_all
    with f c fixing show ?thesis by auto
  qed
  with q show ?thesis by blast
qed


theorem qa_loop_exit_condition_witness:
  "(0::int) < 3
   \<and> fst (fst (review_step (example_env Low) 3 1 example_state ())) = None
   \<and> qaReport (ctx (snd (fst (review_step (example_env Low) 3 1 example_state ()))))
       = Some (example_report Low)
   \<and> overallVerdict (example_report Low) = NeedsRevision
   \<and> \<not> hasBlockingIssues
          (ctx (snd (fst (review_step (example_env Low) 3 1 example_state ()))))
   \<and> (\<exists>st3. qa_loop (example_env Low) 3 0 example_state () = ((None, 1, st3), ())
          \<and> calls st3
              = calls (snd (fst (review_step (example_env Low) 3 1 example_state ()))))"
proof -
  let ?R = "review_step (example_env Low) 3 1 example_state ()"
  have pos: "(0::int) < 3" by simp
  have ok: "fst (fst ?R) = None" by code_simp
  then have step: "?R = ((None, snd (fst ?R)), ())" by (simp add: prod_eq_iff)
  have rep: "qaReport (ctx (snd (fst ?R))) = Some (example_report Low)" by code_simp
  have verdict: "overallVerdict (example_report Low) = NeedsRevision"
    by (simp add: example_report_def)
  have nb: "\<not> hasBlockingIssues (ctx (snd (fst ?R)))"
    using rep by (simp add: hasBlockingIssues_def example_report_def)
  have step': "review_step (example_env Low) 3 (0 + 1) example_state () = ((None, snd (fst ?R)), ())"
    using step by simp
  from qa_loop_exit_condition[OF pos step'] rep nb
  have "\<exists>st3. qa_loop (example_env Low) 3 0 example_state () = ((None, 1, st3), ())
          \<and> calls st3 = calls (snd (fst ?R))"
    by auto
  with pos ok rep verdict nb show ?thesis by blast
qed

section \<open>extractJson on a JSON text embedded in prose\<close>


lemma skips_Nil: "scan_skips opn cls d b []"
  by (simp add: scan_skips_def)

lemma skips_append:
  "scan_skips opn cls d b x \<Longrightarrow> scan_skips opn cls d b y \<Longrightarrow> scan_skips opn cls d b (x @ y)"
  by (simp add: scan_skips_def add.assoc)

lemma skips_plain_char:
  "c \<noteq> CHR 0x5C \<Longrightarrow> c \<noteq> CHR 0x22 \<Longrightarrow> c \<noteq> opn \<Longrightarrow> c \<noteq> cls \<Longrightarrow> scan_skips opn cls d False [c]"
  by (simp add: scan_skips_def)

lemma skips_plain:
  assumes "\<forall>c \<in> set x. c \<noteq> CHR 0x5C \<and> c \<noteq> CHR 0x22 \<and> c \<noteq> opn \<and> c \<noteq> cls"
  shows "scan_skips opn cls d False x"
  using assms
proof (induction x)
  case Nil
  show ?case by (rule skips_Nil)
next
  case (Cons c x)
  then have "scan_skips opn cls d False [c]" "scan_skips opn cls d False x"
    by (simp_all add: skips_plain_char)
  then have "scan_skips opn cls d False ([c] @ x)" by (rule skips_append)
  then show ?case by simp
qed

lemma skips_characters:
  "json_characters cs \<Longrightarrow> scan_skips opn cls d True cs"
proof (induction cs rule: json_characters.induct)
  case chars_Nil
  show ?case by (rule skips_Nil)
next
  case (chars_plain c cs)
  then show ?case by (simp add: scan_skips_def)
next
  case (chars_escape e cs)
  then show ?case by (simp add: scan_skips_def)
next
  case (chars_unicode h1 h2 h3 h4 cs)
  have h: "h \<noteq> CHR 0x5C \<and> h \<noteq> CHR 0x22" if "is_hex h" for h
    using that by (auto simp: is_hex_def)
  from chars_unicode h show ?case by (simp add: scan_skips_def)
qed



lemma skips_string:
  assumes "json_characters cs"
  shows "scan_skips opn cls d False (CHR 0x22 # cs @ [CHR 0x22])"
proof -
  from skips_characters[OF assms]
  have s: "scan opn cls (cs @ r) i d True False = scan opn cls r (i + length cs) d True False"
    for r i
    unfolding scan_skips_def by blast
  show ?thesis
    unfolding scan_skips_def
  proof (intro allI)
    fix r i
    have "scan opn cls ((CHR 0x22 # cs @ [CHR 0x22]) @ r) i d False False
          = scan opn cls (cs @ (CHR 0x22 # r)) (i + 1) d True False"
      by simp
    also have "\<dots> = scan opn cls (CHR 0x22 # r) (i + 1 + length cs) d True False"
      by (rule s)
    also have "\<dots> = scan opn cls r (i + length (CHR 0x22 # cs @ [CHR 0x22])) d False False"
      by (simp add: add.commute add.left_commute)
    finally show "scan opn cls ((CHR 0x22 # cs @ [CHR 0x22]) @ r) i d False False
          = scan opn cls r (i + length (CHR 0x22 # cs @ [CHR 0x22])) d False False" .
  qed
qed

lemma delimiters_structural: "delimiters opn cls \<Longrightarrow> structural opn \<and> structural cls"
  unfolding delimiters_def structural_def by auto

lemma number_char_plain: "c \<in> set ''0123456789-+.eE'' \<Longrightarrow> \<not> structural c"
  unfolding structural_def by auto

lemma ws_char_plain:
  "c \<in> set [CHR 0x20, CHR 0x0A, CHR 0x0D, CHR 0x09] \<Longrightarrow> \<not> structural c"
  unfolding structural_def by auto


lemma structural_specials: "structural (CHR 0x5C)" "structural (CHR 0x22)"
  unfolding structural_def by simp_all

lemma skips_unstructured:
  assumes "\<forall>c \<in> set x. \<not> structural c" and "delimiters opn cls"
  shows "scan_skips opn cls d False x"
proof (rule skips_plain, rule ballI)
  fix c assume "c \<in> set x"
  with assms(1) have n: "\<not> structural c" by blast
  from delimiters_structural[OF assms(2)] structural_specials n
  show "c \<noteq> CHR 0x5C \<and> c \<noteq> CHR 0x22 \<and> c \<noteq> opn \<and> c \<noteq> cls" by blast
qed

lemma skips_ws:
  assumes "json_ws w" and "delimiters opn cls"
  shows "scan_skips opn cls d False w"
proof (rule skips_unstructured[OF _ assms(2)], rule ballI)
  fix c assume "c \<in> set w"
  with assms(1) have "c \<in> set [CHR 0x20, CHR 0x0A, CHR 0x0D, CHR 0x09]"
    unfolding json_ws_def list_all_iff by blast
  then show "\<not> structural c" by (rule ws_char_plain)
qed

lemma digits_number_chars:
  assumes "json_digits ds" and "c \<in> set ds"
  shows "c \<in> set ''0123456789-+.eE''"
proof -
  from assms have "c \<in> set ''0123456789''"
    unfolding json_digits_def list_all_iff is_digit_def by blast
  then show ?thesis by auto
qed

lemma number_chars:
  assumes "json_number s" and "c \<in> set s"
  shows "c \<in> set ''0123456789-+.eE''"
proof -
  from assms(1) obtain sign ip frac ex where s: "s = sign @ ip @ frac @ ex"
    and sign: "sign = [] \<or> sign = ''-''"
    and ip: "ip = ''0'' \<or> (json_digits ip \<and> hd ip \<noteq> CHR ''0'')"
    and frac: "frac = [] \<or> (\<exists>ds. frac = CHR ''.'' # ds \<and> json_digits ds)"
    and ex: "ex = [] \<or> (\<exists>m sg ds. ex = m # sg @ ds \<and> (m = CHR ''e'' \<or> m = CHR ''E'')
                            \<and> (sg = [] \<or> sg = ''+'' \<or> sg = ''-'') \<and> json_digits ds)"
    unfolding json_number_def by blast
  from assms(2) s consider "c \<in> set sign" | "c \<in> set ip" | "c \<in> set frac" | "c \<in> set ex"
    by auto
  then show ?thesis
  proof cases
    case 1
    with sign have "c = CHR ''-''" by auto
    then show ?thesis by simp
  next
    case 2
    from ip show ?thesis
    proof
      assume "ip = ''0''"
      with 2 have "c = CHR ''0''" by simp
      then show ?thesis by simp
    next
      assume "json_digits ip \<and> hd ip \<noteq> CHR ''0''"
      with 2 show ?thesis using digits_number_chars by blast
    qed
  next
    case 3
    with frac obtain ds where f: "frac = CHR ''.'' # ds" "json_digits ds" by auto
    with 3 have "c = CHR ''.'' \<or> c \<in> set ds" by simp
    then show ?thesis
    proof
      assume "c = CHR ''.''"
      then show ?thesis by simp
    next
      assume "c \<in> set ds"
      with f(2) show ?thesis by (rule digits_number_chars)
    qed
  next
    case 4
    with ex obtain m sg ds where e: "ex = m # sg @ ds" "m = CHR ''e'' \<or> m = CHR ''E''"
      "sg = [] \<or> sg = ''+'' \<or> sg = ''-''" "json_digits ds" by auto
    with 4 consider "c = m" | "c \<in> set sg" | "c \<in> set ds" by auto
    then show ?thesis
    proof cases
      case 1
      with e(2) have "c = CHR ''e'' \<or> c = CHR ''E''" by simp
      then show ?thesis by auto
    next
      case 2
      with e(3) have "c = CHR ''+'' \<or> c = CHR ''-''" by auto
      then show ?thesis by auto
    next
      case 3
      with e(4) show ?thesis by (rule digits_number_chars)
    qed
  qed
qed

lemma skips_number:
  assumes "json_number s" and "delimiters opn cls"
  shows "scan_skips opn cls d False s"
proof (rule skips_unstructured[OF _ assms(2)], rule ballI)
  fix c assume "c \<in> set s"
  with assms(1) have "c \<in> set ''0123456789-+.eE''" by (rule number_chars)
  then show "\<not> structural c" by (rule number_char_plain)
qed

lemma passes_append:
  "scan_passes opn cls x \<Longrightarrow> scan_passes opn cls y \<Longrightarrow> scan_passes opn cls (x @ y)"
  unfolding scan_passes_def by (blast intro: skips_append)

lemma passes_unstructured:
  "\<forall>c \<in> set x. \<not> structural c \<Longrightarrow> delimiters opn cls \<Longrightarrow> scan_passes opn cls x"
  unfolding scan_passes_def by (blast intro: skips_unstructured)

lemma passes_char:
  assumes "\<not> structural c" and "delimiters opn cls" and "scan_passes opn cls s"
  shows "scan_passes opn cls (c # s)"
proof -
  from assms(1) have "\<forall>x \<in> set [c]. \<not> structural x" by simp
  from passes_unstructured[OF this assms(2)] assms(3)
  have "scan_passes opn cls ([c] @ s)" by (rule passes_append)
  then show ?thesis by simp
qed

lemma passes_ws: "json_ws w \<Longrightarrow> delimiters opn cls \<Longrightarrow> scan_passes opn cls w"
  unfolding scan_passes_def by (blast intro: skips_ws)

lemma passes_number: "json_number s \<Longrightarrow> delimiters opn cls \<Longrightarrow> scan_passes opn cls s"
  unfolding scan_passes_def by (blast intro: skips_number)

lemma passes_string:
  "json_characters cs \<Longrightarrow> scan_passes opn cls (CHR 0x22 # cs @ [CHR 0x22])"
  unfolding scan_passes_def by (blast intro: skips_string)

lemma skips_same_pair:
  assumes "delimiters opn cls" and "scan_passes opn cls body" and "1 \<le> d"
  shows "scan_skips opn cls d False (opn # body @ [cls])"
  unfolding scan_skips_def
proof (intro allI)
  fix r i
  from assms(1) have ne: "opn \<noteq> CHR 0x5C" "opn \<noteq> CHR 0x22" "cls \<noteq> CHR 0x5C" "cls \<noteq> CHR 0x22"
    "cls \<noteq> opn"
    unfolding delimiters_def by auto
  from assms(2,3) have b: "scan opn cls (body @ t) j (d + 1) False False
      = scan opn cls t (j + length body) (d + 1) False False" for t j
    unfolding scan_passes_def scan_skips_def by simp
  have "scan opn cls ((opn # body @ [cls]) @ r) i d False False
        = scan opn cls (body @ (cls # r)) (i + 1) (d + 1) False False"
    using ne by simp
  also have "\<dots> = scan opn cls (cls # r) (i + 1 + length body) (d + 1) False False"
    by (rule b)
  also have "\<dots> = scan opn cls r (i + length (opn # body @ [cls])) d False False"
    using ne assms(3) by (simp add: add.commute add.left_commute)
  finally show "scan opn cls ((opn # body @ [cls]) @ r) i d False False
        = scan opn cls r (i + length (opn # body @ [cls])) d False False" .
qed

lemma skips_other_pair:
  assumes "delimiters opn cls" and "delimiters o' c'" and "o' \<noteq> opn"
    and "scan_passes opn cls body" and "1 \<le> d"
  shows "scan_skips opn cls d False (o' # body @ [c'])"
proof -
  from assms(1,2,3) have ne: "o' \<noteq> CHR 0x5C" "o' \<noteq> CHR 0x22" "o' \<noteq> opn" "o' \<noteq> cls"
    "c' \<noteq> CHR 0x5C" "c' \<noteq> CHR 0x22" "c' \<noteq> opn" "c' \<noteq> cls"
    unfolding delimiters_def by auto
  from ne have "scan_skips opn cls d False [o']" "scan_skips opn cls d False [c']"
    by (simp_all add: skips_plain_char)
  moreover from assms(4,5) have "scan_skips opn cls d False body"
    unfolding scan_passes_def by simp
  ultimately have "scan_skips opn cls d False ([o'] @ body @ [c'])"
    by (intro skips_append)
  then show ?thesis by simp
qed

lemma passes_wrapped:
  assumes "delimiters opn cls" and "delimiters o' c'" and "scan_passes opn cls body"
  shows "scan_passes opn cls (o' # body @ [c'])"
  unfolding scan_passes_def
proof (intro allI impI)
  fix d :: int assume d: "1 \<le> d"
  show "scan_skips opn cls d False (o' # body @ [c'])"
  proof (cases "o' = opn")
    case True
    with assms(1,2) have "c' = cls" unfolding delimiters_def by auto
    with True skips_same_pair[OF assms(1,3) d] show ?thesis by simp
  next
    case False
    from skips_other_pair[OF assms(1,2) False assms(3) d] show ?thesis .
  qed
qed

lemma delimiters_braces: "delimiters (CHR ''{'') (CHR ''}'')"
  and delimiters_brackets: "delimiters (CHR ''['') (CHR '']'')"
  by (simp_all add: delimiters_def)

lemma passes_literals:
  assumes "delimiters opn cls"
  shows "scan_passes opn cls ''true''" "scan_passes opn cls ''false''"
    "scan_passes opn cls ''null''"
  by (rule passes_unstructured[OF _ assms], simp add: structural_def)+

lemma comma_colon_plain: "\<not> structural (CHR '','')" "\<not> structural (CHR '':'')"
  by (simp_all add: structural_def)

lemma passes_json:
  assumes dl: "delimiters opn cls"
  shows "json_value s \<Longrightarrow> scan_passes opn cls s"
    and "json_object s \<Longrightarrow> scan_passes opn cls s"
    and "json_array s \<Longrightarrow> scan_passes opn cls s"
    and "json_elements s \<Longrightarrow> scan_passes opn cls s"
    and "json_members s \<Longrightarrow> scan_passes opn cls s"
proof (induction rule: json_value_json_object_json_array_json_elements_json_members.inducts)
  case (v_object s)
  then show ?case by simp
next
  case (v_array s)
  then show ?case by simp
next
  case (v_string cs)
  then show ?case by (rule passes_string)
next
  case (v_number s)
  then show ?case using dl by (rule passes_number)
next
  case v_true
  show ?case by (rule passes_literals[OF dl])
next
  case v_false
  show ?case by (rule passes_literals[OF dl])
next
  case v_null
  show ?case by (rule passes_literals[OF dl])
next
  case (o_empty w)
  from passes_wrapped[OF dl delimiters_braces passes_ws[OF o_empty dl]]
  show ?case by simp
next
  case (o_members ms)
  from passes_wrapped[OF dl delimiters_braces o_members.IH]
  show ?case by simp
next
  case (a_empty w)
  from passes_wrapped[OF dl delimiters_brackets passes_ws[OF a_empty dl]]
  show ?case by simp
next
  case (a_elements es)
  from passes_wrapped[OF dl delimiters_brackets a_elements.IH]
  show ?case by simp
next
  case (e_one w1 v w2)
  show ?case
    by (intro passes_append passes_ws[OF _ dl] e_one.hyps e_one.IH)
next
  case (e_more w1 v w2 es)
  show ?case
    by (intro passes_append passes_char[OF comma_colon_plain(1) dl] passes_ws[OF _ dl]
          e_more.hyps e_more.IH)
next
  case (m_one w1 k w2 w3 v w4)
  have "scan_passes opn cls
          (w1 @ (CHR 0x22 # k @ [CHR 0x22]) @ w2 @ CHR '':'' # w3 @ v @ w4)"
    by (intro passes_append passes_char[OF comma_colon_plain(2) dl] passes_ws[OF _ dl]
          passes_string m_one.hyps m_one.IH)
  then show ?case by simp
next
  case (m_more w1 k w2 w3 v w4 ms)
  have "scan_passes opn cls
          (w1 @ (CHR 0x22 # k @ [CHR 0x22]) @ w2 @ CHR '':'' # w3 @ v @ w4 @ CHR '','' # ms)"
    by (intro passes_append passes_char[OF comma_colon_plain(2) dl]
          passes_char[OF comma_colon_plain(1) dl] passes_ws[OF _ dl]
          passes_string m_more.hyps m_more.IH)
  then show ?case by simp
qed

lemma matches_atoms: "matches r w \<Longrightarrow> atoms_imply Q r \<Longrightarrow> \<forall>c \<in> set w. Q c"
  by (induction rule: matches.induct) auto

lemma scan_payload:
  assumes "delimiters opn cls" and "scan_passes opn cls body"
  shows "scan opn cls ((opn # body @ [cls]) @ q) i 0 False False = Some (i + length body + 1)"
proof -
  from assms(1) have ne: "opn \<noteq> CHR 0x5C" "opn \<noteq> CHR 0x22" "cls \<noteq> CHR 0x5C" "cls \<noteq> CHR 0x22"
    "cls \<noteq> opn"
    unfolding delimiters_def by auto
  from assms(2) have b: "scan opn cls (body @ t) j 1 False False
      = scan opn cls t (j + length body) 1 False False" for t j
    unfolding scan_passes_def scan_skips_def by simp
  have "scan opn cls ((opn # body @ [cls]) @ q) i 0 False False
        = scan opn cls (body @ (cls # q)) (i + 1) 1 False False"
    using ne by simp
  also have "\<dots> = scan opn cls (cls # q) (i + 1 + length body) 1 False False"
    by (rule b)
  also have "\<dots> = Some (i + length body + 1)"
    using ne by simp
  finally show ?thesis .
qed

lemma object_shape:
  assumes "json_object s"
  shows "\<exists>body. s = CHR ''{'' # body @ ''}'' \<and> scan_passes (CHR ''{'') (CHR ''}'') body"
  using assms
proof (cases rule: json_object.cases)
  case (o_empty w)
  with passes_ws[OF _ delimiters_braces] show ?thesis by blast
next
  case (o_members ms)
  with passes_json(5)[OF delimiters_braces] show ?thesis by blast
qed

lemma array_shape:
  assumes "json_array s"
  shows "\<exists>body. s = CHR ''['' # body @ '']'' \<and> scan_passes (CHR ''['') (CHR '']'') body"
  using assms
proof (cases rule: json_array.cases)
  case (a_empty w)
  with passes_ws[OF _ delimiters_brackets] show ?thesis by blast
next
  case (a_elements es)
  with passes_json(4)[OF delimiters_brackets] show ?thesis by blast
qed

lemma dropWhile_embedded:
  assumes "y \<noteq> []" and "\<not> P (hd y)"
  shows "dropWhile P (a @ y) = dropWhile P a @ y"
proof (induction a)
  case Nil
  from assms show ?case by (cases y) simp_all
next
  case (Cons c a)
  then show ?case by simp
qed

lemma trim_embedded:
  assumes "x \<noteq> []" and "\<not> is_space (hd x)" and "\<not> is_space (last x)"
  shows "trim (p @ x @ q) = dropWhile is_space p @ x @ rev (dropWhile is_space (rev q))"
proof -
  have "x @ q \<noteq> []" "\<not> is_space (hd (x @ q))" using assms(1,2) by simp_all
  then have a: "dropWhile is_space (p @ x @ q) = dropWhile is_space p @ x @ q"
    by (rule dropWhile_embedded)
  let ?y = "rev x @ rev (dropWhile is_space p)"
  have "?y \<noteq> []" "\<not> is_space (hd ?y)" using assms(1,3) by (simp_all add: hd_rev)
  then have "dropWhile is_space (rev q @ ?y) = dropWhile is_space (rev q) @ ?y"
    by (rule dropWhile_embedded)
  then have "rev (dropWhile is_space (rev (dropWhile is_space p @ x @ q)))
      = rev (dropWhile is_space (rev q) @ ?y)" by simp
  then show ?thesis unfolding trim_def a by simp
qed

lemma fence_pre_atoms: "atoms_imply (\<lambda>c. c \<noteq> CHR ''{'' \<and> c \<noteq> CHR ''['') fence_pre"
  by (simp add: fence_pre_def Opt_def is_space_def)

lemma fence_post_atoms: "atoms_imply (\<lambda>c. c \<noteq> CHR ''}'' \<and> c \<noteq> CHR '']'') fence_post"
  by (simp add: fence_post_def is_space_def)

lemma fenceMatch_parts:
  assumes "fenceMatch s = Some cap"
  shows "\<exists>u v. s = u @ cap @ v
           \<and> (\<forall>c \<in> set u. c \<noteq> CHR ''{'' \<and> c \<noteq> CHR ''['')
           \<and> (\<forall>c \<in> set v. c \<noteq> CHR ''}'' \<and> c \<noteq> CHR '']'')"
proof -
  let ?ms = "filter (\<lambda>(cap, rest). rest = []) (rmatch_cap fence_pre fence_grp fence_post s)"
  from assms obtain rest others where "?ms = (cap, rest) # others"
    by (auto simp: fenceMatch_def split: list.splits)
  then have "(cap, rest) \<in> set ?ms" by simp
  then have m: "(cap, []) \<in> set (rmatch_cap fence_pre fence_grp fence_post s)" by auto
  then obtain t1 t2 where t: "t1 \<in> set (rmatch fence_pre s)" "t2 \<in> set (rmatch fence_grp t1)"
    "[] \<in> set (rmatch fence_post t2)" "cap = take (length t1 - length t2) t1"
    by (auto simp: rmatch_cap_def)
  from rmatch_sound[OF t(1)] obtain u where u: "s = u @ t1" "matches fence_pre u" by blast
  from rmatch_sound[OF t(2)] obtain c where c: "t1 = c @ t2" by blast
  from rmatch_sound[OF t(3)] obtain v where v: "t2 = v @ []" "matches fence_post v" by blast
  from c t(4) have "cap = c" by simp
  with u c v have "s = u @ cap @ v" by simp
  moreover note matches_atoms[OF u(2) fence_pre_atoms] matches_atoms[OF v(2) fence_post_atoms]
  ultimately show ?thesis by blast
qed

lemma embedded_in_capture:
  assumes eq: "p @ x @ q = u @ cap @ v"
    and x: "x \<noteq> []" and hx: "hd x \<notin> set u" and lx: "last x \<notin> set v"
  shows "\<exists>p' q'. cap = p' @ x @ q' \<and> set p' \<subseteq> set p"
proof -
  from eq have "p @ (x @ q) = u @ (cap @ v)" by simp
  then obtain us where us: "(p = u @ us \<and> us @ (x @ q) = cap @ v)
      \<or> (p @ us = u \<and> x @ q = us @ (cap @ v))"
    unfolding append_eq_append_conv2 by blast
  have first: "\<exists>us. p = u @ us \<and> us @ x @ q = cap @ v"
  proof (cases "p = u @ us \<and> us @ (x @ q) = cap @ v")
    case True
    then show ?thesis by auto
  next
    case False
    with us have b: "p @ us = u" "x @ q = us @ (cap @ v)" by auto
    have "us = []"
    proof (rule ccontr)
      assume "us \<noteq> []"
      with b(2) x have "hd x = hd us" by (metis hd_append2)
      with \<open>us \<noteq> []\<close> b(1) have "hd x \<in> set u" by (metis hd_in_set Un_iff set_append)
      with hx show False by simp
    qed
    with b have "p = u @ [] \<and> [] @ x @ q = cap @ v" by simp
    then show ?thesis by blast
  qed
  then obtain p' where p': "p = u @ p'" "(p' @ x) @ q = cap @ v" by auto
  from p'(2) obtain ws where ws: "(p' @ x = cap @ ws \<and> ws @ q = v)
      \<or> (p' @ x @ ws = cap \<and> q = ws @ v)"
    unfolding append_eq_append_conv2 by auto
  have "\<exists>q'. cap = p' @ x @ q'"
  proof (cases "p' @ x @ ws = cap \<and> q = ws @ v")
    case True
    then show ?thesis by auto
  next
    case False
    with ws have b: "p' @ x = cap @ ws" "ws @ q = v" by auto
    have "ws = []"
    proof (rule ccontr)
      assume n: "ws \<noteq> []"
      from x have "last (p' @ x) = last x" by simp
      with b(1) n have "last x = last ws" by simp
      with n b(2) have "last x \<in> set v" by (metis last_in_set Un_iff set_append)
      with lx show False by simp
    qed
    with b(1) have "cap = p' @ x @ []" by simp
    then show ?thesis by blast
  qed
  moreover from p'(1) have "set p' \<subseteq> set p" by auto
  ultimately show ?thesis by blast
qed

lemma indexOf_first: "c \<notin> set p \<Longrightarrow> indexOf (p @ c # r) c = int (length p)"
proof -
  assume "c \<notin> set p"
  then have "takeWhile (\<lambda>x. x \<noteq> c) (p @ c # r) = p"
    by (induction p) auto
  then show ?thesis by (simp add: indexOf_def)
qed

lemma indexOf_other:
  assumes "c' \<notin> set p" and "c' \<noteq> c"
  shows "indexOf (p @ c # r) c' < 0 \<or> int (length p) < indexOf (p @ c # r) c'"
proof (cases "c' \<in> set r")
  case False
  with assms show ?thesis by (simp add: indexOf_def)
next
  case True
  from assms have "takeWhile (\<lambda>x. x \<noteq> c') (p @ c # r) = p @ c # takeWhile (\<lambda>x. x \<noteq> c') r"
    by (induction p) auto
  then show ?thesis using True by (simp add: indexOf_def)
qed

lemma cleaned_embedded:
  assumes x: "x \<noteq> []" "hd x = CHR ''{'' \<or> hd x = CHR ''[''"
    "last x = CHR ''}'' \<or> last x = CHR '']''"
    and p: "CHR ''{'' \<notin> set p" "CHR ''['' \<notin> set p"
  shows "\<exists>p' q'. cleaned_text (p @ x @ q) = p' @ x @ q' \<and> set p' \<subseteq> set p"
proof -
  from x(2,3) have sp: "\<not> is_space (hd x)" "\<not> is_space (last x)"
    by (auto simp: is_space_def)
  let ?p1 = "dropWhile is_space p"
  let ?q1 = "rev (dropWhile is_space (rev q))"
  have t: "trim (p @ x @ q) = ?p1 @ x @ ?q1" by (rule trim_embedded[OF x(1) sp])
  have sub1: "set ?p1 \<subseteq> set p" by (auto dest: set_dropWhileD)
  show ?thesis
  proof (cases "fenceMatch (trim (p @ x @ q))")
    case None
    with t have "cleaned_text (p @ x @ q) = ?p1 @ x @ ?q1" by (simp add: cleaned_text_def)
    with sub1 show ?thesis by blast
  next
    case (Some cap)
    from fenceMatch_parts[OF Some] t obtain u v where uv: "?p1 @ x @ ?q1 = u @ cap @ v"
      "\<forall>c \<in> set u. c \<noteq> CHR ''{'' \<and> c \<noteq> CHR ''[''"
      "\<forall>c \<in> set v. c \<noteq> CHR ''}'' \<and> c \<noteq> CHR '']''"
      by auto
    from uv(2) x(2) have hx: "hd x \<notin> set u" by auto
    from uv(3) x(3) have lx: "last x \<notin> set v" by auto
    from embedded_in_capture[OF uv(1) x(1) hx lx] obtain p2 q2 where
      c: "cap = p2 @ x @ q2" "set p2 \<subseteq> set ?p1" by blast
    have "trim cap = dropWhile is_space p2 @ x @ rev (dropWhile is_space (rev q2))"
      unfolding c(1) by (rule trim_embedded[OF x(1) sp])
    with Some have "cleaned_text (p @ x @ q)
        = dropWhile is_space p2 @ x @ rev (dropWhile is_space (rev q2))"
      by (simp add: cleaned_text_def)
    moreover have "set (dropWhile is_space p2) \<subseteq> set p"
      using c(2) sub1 by (auto dest: set_dropWhileD)
    ultimately show ?thesis by blast
  qed
qed

lemma extractJson_unfold_brace:
  assumes "cleaned_text t = cl" and "indexOf cl (CHR ''{'') = int n"
    and "indexOf cl (CHR ''['') < 0 \<or> int n < indexOf cl (CHR ''['')"
  shows "extractJson t =
     (case scan (CHR ''{'') (CHR ''}'') (drop n cl) n 0 False False of
        Some i \<Rightarrow> substring cl n (i + 1) | None \<Rightarrow> cl)"
  using assms by (auto simp: extractJson_def Let_def split: option.splits)

lemma extractJson_unfold_bracket:
  assumes "cleaned_text t = cl" and "indexOf cl (CHR ''['') = int n"
    and "indexOf cl (CHR ''{'') < 0 \<or> int n < indexOf cl (CHR ''{'')"
  shows "extractJson t =
     (case scan (CHR ''['') (CHR '']'') (drop n cl) n 0 False False of
        Some i \<Rightarrow> substring cl n (i + 1) | None \<Rightarrow> cl)"
  using assms by (auto simp: extractJson_def Let_def split: option.splits)

lemma extract_delimited:
  assumes c: "cleaned_text t = p' @ (opn # body @ [cls]) @ q'"
    and d: "(opn = CHR ''{'' \<and> cls = CHR ''}'' \<and> other = CHR ''['')
            \<or> (opn = CHR ''['' \<and> cls = CHR '']'' \<and> other = CHR ''{'')"
    and b: "scan_passes opn cls body"
    and p: "opn \<notin> set p'" "other \<notin> set p'"
  shows "extractJson t = opn # body @ [cls]"
proof -
  let ?x = "opn # body @ [cls]"
  let ?cl = "p' @ opn # (body @ [cls] @ q')"
  have cl: "cleaned_text t = ?cl" using c by simp
  from d have dl: "delimiters opn cls" and ne: "other \<noteq> opn"
    by (auto simp: delimiters_def)
  have fo: "indexOf ?cl opn = int (length p')" by (rule indexOf_first[OF p(1)])
  have fk: "indexOf ?cl other < 0 \<or> int (length p') < indexOf ?cl other"
    by (rule indexOf_other[OF p(2) ne])
  have dr: "drop (length p') ?cl = ?x @ q'" by simp
  have sc: "scan opn cls (?x @ q') (length p') 0 False False
      = Some (length p' + length body + 1)"
    by (rule scan_payload[OF dl b])
  have "take (length ?x) (?x @ q') = ?x" by simp
  then have sub: "substring ?cl (length p') (length p' + length body + 1 + 1) = ?x"
    unfolding substring_def dr by simp
  have "extractJson t =
     (case scan opn cls (drop (length p') ?cl) (length p') 0 False False of
        Some i \<Rightarrow> substring ?cl (length p') (i + 1) | None \<Rightarrow> ?cl)"
  proof -
    from d consider "opn = CHR ''{''" "cls = CHR ''}''" "other = CHR ''[''"
      | "opn = CHR ''[''" "cls = CHR '']''" "other = CHR ''{''" by blast
    then show ?thesis
    proof cases
      case 1
      show ?thesis
        unfolding 1(1,2)
        by (rule extractJson_unfold_brace[OF cl[unfolded 1] fo[unfolded 1] fk[unfolded 1]])
    next
      case 2
      show ?thesis
        unfolding 2(1,2)
        by (rule extractJson_unfold_bracket[OF cl[unfolded 2] fo[unfolded 2] fk[unfolded 2]])
    qed
  qed
  also have "\<dots> = substring ?cl (length p') (length p' + length body + 1 + 1)"
    unfolding dr sc by simp
  also have "\<dots> = ?x" by (rule sub)
  finally show ?thesis .
qed

text \<open>
  C2, as amended. When a valid JSON object or array stands in a text after a part that
  holds neither an opening brace nor an opening bracket, and before any text at all,
  \<open>extractJson\<close> returns exactly the object or array, with or without an outer code
  fence, whatever braces and brackets its string literals hold.
\<close>

theorem extractJson_embedded_payload:
  assumes "json_object payload \<or> json_array payload"
    and "CHR ''{'' \<notin> set p" and "CHR ''['' \<notin> set p"
  shows "extractJson (p @ payload @ q) = payload"
proof -
  from assms(1) object_shape array_shape obtain opn cls other body where
    s: "payload = opn # body @ [cls]" "scan_passes opn cls body"
    and d: "(opn = CHR ''{'' \<and> cls = CHR ''}'' \<and> other = CHR ''['')
            \<or> (opn = CHR ''['' \<and> cls = CHR '']'' \<and> other = CHR ''{'')"
    by (metis append_Cons append_Nil2 append_Nil)
  have x: "payload \<noteq> []" "hd payload = CHR ''{'' \<or> hd payload = CHR ''[''"
    "last payload = CHR ''}'' \<or> last payload = CHR '']''"
    using s(1) d by auto
  from cleaned_embedded[OF x assms(2,3)] obtain p' q' where
    c: "cleaned_text (p @ payload @ q) = p' @ payload @ q'" "set p' \<subseteq> set p" by blast
  from c(2) assms(2,3) d have np: "opn \<notin> set p'" "other \<notin> set p'" by auto
  from extract_delimited[OF c(1)[unfolded s(1)] d s(2) np] s(1) show ?thesis by simp
qed

lemma json_ws_Nil: "json_ws []"
  by (simp add: json_ws_def)

lemma json_number_1: "json_number ''1''"
  unfolding json_number_def
  by (rule exI[of _ "[]"], rule exI[of _ "''1''"], rule exI[of _ "[]"], rule exI[of _ "[]"])
     (simp add: json_digits_def is_digit_def)

lemma json_object_a1: "json_object ''{\"a\":1}''"
proof -
  have k: "json_characters ''a''"
    by (rule chars_plain) (simp_all add: chars_Nil)
  have v: "json_value ''1''" by (rule v_number[OF json_number_1])
  from m_one[OF json_ws_Nil k json_ws_Nil json_ws_Nil v json_ws_Nil]
  have "json_members ''\"a\":1''" by simp
  from o_members[OF this] show ?thesis by simp
qed

lemma json_object_nested: "json_object ''{\"a\":[1,\"}\"]}''"
proof -
  have k: "json_characters ''a''"
    by (rule chars_plain) (simp_all add: chars_Nil)
  have c: "json_characters ''}''"
    by (rule chars_plain) (simp_all add: chars_Nil)
  have n: "json_value ''1''" by (rule v_number[OF json_number_1])
  have s: "json_value (CHR 0x22 # ''}'' @ [CHR 0x22])" by (rule v_string[OF c])
  have e2: "json_elements ([] @ (CHR 0x22 # ''}'' @ [CHR 0x22]) @ [])"
    by (rule e_one[OF json_ws_Nil s json_ws_Nil])
  from e_more[OF json_ws_Nil n json_ws_Nil e2]
  have "json_elements ''1,\"}\"''" by simp
  from a_elements[OF this] have "json_array ''[1,\"}\"]''" by simp
  then have a: "json_value ''[1,\"}\"]''" by (rule v_array)
  from m_one[OF json_ws_Nil k json_ws_Nil json_ws_Nil a json_ws_Nil]
  have "json_members ''\"a\":[1,\"}\"]''" by simp
  from o_members[OF this] show ?thesis by simp
qed

theorem extractJson_embedded_payload_witness:
  "(json_object ''{\"a\":[1,\"}\"]}'' \<or> json_array ''{\"a\":[1,\"}\"]}'')
   \<and> CHR ''{'' \<notin> set ''Here you go: '' \<and> CHR ''['' \<notin> set ''Here you go: ''
   \<and> extractJson (''Here you go: '' @ ''{\"a\":[1,\"}\"]}'' @ '' done}'') = ''{\"a\":[1,\"}\"]}''"
proof -
  have o: "json_object ''{\"a\":[1,\"}\"]}'' \<or> json_array ''{\"a\":[1,\"}\"]}''"
    using json_object_nested by simp
  have p: "CHR ''{'' \<notin> set ''Here you go: ''" "CHR ''['' \<notin> set ''Here you go: ''"
    by simp_all
  from extractJson_embedded_payload[OF o p] o p show ?thesis by blast
qed

text \<open>
  C2 as stated fails: a bracket in the prose before the payload is taken for the start
  of the payload.
\<close>

theorem extractJson_prose_counterexample:
  "json_object ''{\"a\":1}''
   \<and> extractJson (''Result [draft]: '' @ ''{\"a\":1}'' @ '''') = ''[draft]''
   \<and> ''[draft]'' \<noteq> ''{\"a\":1}''"
proof -
  have "extractJson (''Result [draft]: '' @ ''{\"a\":1}'' @ '''') = ''[draft]''"
    by code_simp
  with json_object_a1 show ?thesis by simp
qed

end
